theory Spec2Isabelle
  imports Main
begin

section \<open>Machine integers of the C sources\<close>

text \<open>
  The sources are compiled for an LP64 target: \<open>int\<close> has 32 bits, \<open>long\<close> and
  \<open>long long\<close> have 64. Values are modelled as mathematical integers; every signed
  operation of the source is checked against the range of its C type, and leaving the
  range (undefined behaviour in C) is the error \<open>SignedOverflow\<close>. The conversion of a
  \<open>long\<close> to an \<open>int\<close> is not undefined: the compiler named in the Makefile reduces the
  value modulo \<open>2 ^ 32\<close>.
\<close>

definition INT_MAX :: int where
  "INT_MAX = 2147483647"

definition INT_MIN :: int where
  "INT_MIN = - 2147483648"

definition LONG_MAX :: int where
  "LONG_MAX = 9223372036854775807"

definition LONG_MIN :: int where
  "LONG_MIN = - 9223372036854775808"

text \<open>
  The ways a run ends early: the \<open>usage\<close> exit and the \<open>ERROR_EXIT\<close> calls of the two
  programs, named after their messages, and the two kinds of undefined behaviour.
\<close>

datatype error =
    Usage
  | InvalidK
  | OpenFailed
  | InvalidProblemLine
  | InvalidNM
  | AllocGraphFailed
  | AllocEdgesFailed
  | InvalidEdgeLine
  | NoHeader
  | MkstempFailed
  | ResultOpenFailed
  | OutputOpenFailed
  | SignedOverflow
  | OutOfBounds

text \<open>
  Steps in sequence, the first error ending the run; the range checks of arithmetic in
  \<open>int\<close> and in \<open>long\<close>; the conversion of a \<open>long\<close> to \<open>int\<close>.
\<close>

definition bindE :: "error + 'a \<Rightarrow> ('a \<Rightarrow> error + 'b) \<Rightarrow> error + 'b" where
  "bindE r f = (case r of Inl e \<Rightarrow> Inl e | Inr x \<Rightarrow> f x)"

definition chk_int :: "int \<Rightarrow> error + int" where
  "chk_int x = (if INT_MIN \<le> x \<and> x \<le> INT_MAX then Inr x else Inl SignedOverflow)"

definition chk_long :: "int \<Rightarrow> error + int" where
  "chk_long x = (if LONG_MIN \<le> x \<and> x \<le> LONG_MAX then Inr x else Inl SignedOverflow)"

definition to_int :: "int \<Rightarrow> int" where
  "to_int x = (x + 2147483648) mod 4294967296 - 2147483648"

text \<open>
  \<open>for (int i = lo; i <= hi; i++) body\<close>: the counter is a C \<open>int\<close>, the bound an
  \<open>int\<close> or a \<open>long\<close>. A counter that would pass \<open>INT_MAX\<close> (at its initialisation
  \<open>i + 1\<close> or at \<open>i++\<close>) is a signed overflow. The body's outputs are concatenated in
  the order of the iterations.
\<close>

function for_int :: "int \<Rightarrow> int \<Rightarrow> (int \<Rightarrow> error + 'a list) \<Rightarrow> error + 'a list" where
  "for_int i hi body =
     (if INT_MAX < i then Inl SignedOverflow
      else if i \<le> hi then
        bindE (body i) (\<lambda>xs. bindE (for_int (i + 1) hi body) (\<lambda>ys. Inr (xs @ ys)))
      else Inr [])"
  by pat_completeness auto
termination
  by (relation "measure (\<lambda>(i, hi, body). nat (INT_MAX + 1 - i))") auto

declare for_int.simps [simp del]

section \<open>The C library calls the sources use\<close>

text \<open>\<open>isspace\<close> and \<open>isdigit\<close> in the C locale.\<close>

definition isspace :: "char \<Rightarrow> bool" where
  "isspace c \<longleftrightarrow>
     c = CHR '' '' \<or> c = CHR 0x09 \<or> c = CHR 0x0A \<or> c = CHR 0x0B \<or> c = CHR 0x0C \<or> c = CHR 0x0D"

definition isdigit :: "char \<Rightarrow> bool" where
  "isdigit c \<longleftrightarrow> 48 \<le> (of_char c :: nat) \<and> (of_char c :: nat) \<le> 57"

definition digit_of :: "char \<Rightarrow> int" where
  "digit_of c = int (of_char c) - 48"

fun digits_value :: "int \<Rightarrow> string \<Rightarrow> int" where
  "digits_value acc [] = acc"
| "digits_value acc (c # cs) = digits_value (acc * 10 + digit_of c) cs"

definition take_sign :: "string \<Rightarrow> bool \<times> string" where
  "take_sign s =
     (case s of
        [] \<Rightarrow> (False, [])
      | c # r \<Rightarrow> if c = CHR ''-'' then (True, r) else if c = CHR ''+'' then (False, r) else (False, s))"

text \<open>
  \<open>strtol(s, &endptr, 10)\<close>: white space, an optional sign, decimal digits. The result
  is the value, clamped to the range of \<open>long\<close>, and the rest of the string at
  \<open>endptr\<close>; without a digit the value is 0 and \<open>endptr\<close> is \<open>s\<close>.
\<close>

definition strtol :: "string \<Rightarrow> int \<times> string" where
  "strtol s =
     (let (neg, u) = take_sign (dropWhile isspace s); ds = takeWhile isdigit u in
      if ds = [] then (0, s)
      else (if neg then max LONG_MIN (- digits_value 0 ds) else min LONG_MAX (digits_value 0 ds),
            dropWhile isdigit u))"

text \<open>
  The conversion \<open>%d\<close> of \<open>sscanf\<close>: white space, an optional sign, decimal digits;
  \<open>None\<close> is a matching failure. The value is stored into an \<open>int\<close>; for a number
  outside its range (which ISO C leaves undefined) the model follows the C library the
  Makefile's platform links: convert as \<open>strtol\<close>, then cast to \<open>int\<close>.
\<close>

definition scan_d :: "string \<Rightarrow> (int \<times> string) option" where
  "scan_d s =
     (let (neg, u) = take_sign (dropWhile isspace s); ds = takeWhile isdigit u in
      if ds = [] then None
      else Some (to_int (if neg then max LONG_MIN (- digits_value 0 ds)
                         else min LONG_MAX (digits_value 0 ds)),
                 dropWhile isdigit u))"

text \<open>
  A character array read as a C string: the characters before its first zero byte.
\<close>

definition c_str :: "string \<Rightarrow> string" where
  "c_str s = takeWhile (\<lambda>c. c \<noteq> CHR 0x00) s"

text \<open>Ordinary characters of a format must match the input one by one.\<close>

fun match_lit :: "string \<Rightarrow> string \<Rightarrow> string option" where
  "match_lit [] s = Some s"
| "match_lit (p # ps) [] = None"
| "match_lit (p # ps) (c # cs) = (if p = c then match_lit ps cs else None)"

text \<open>
  \<open>sscanf(line, "p edge %d %d", &n, &m) == 2\<close> and \<open>sscanf(line, "e %d %d", &u, &v) == 2\<close>:
  \<open>Some\<close> of the two numbers exactly when the call returns 2. A blank of the format
  skips any white space of the input, as \<open>%d\<close> does before its number. The input is
  the C string at \<open>line\<close>.
\<close>

definition sscanf_p_edge :: "string \<Rightarrow> (int \<times> int) option" where
  "sscanf_p_edge s =
     (case match_lit ''p'' (c_str s) of
        None \<Rightarrow> None
      | Some r1 \<Rightarrow>
          (case match_lit ''edge'' (dropWhile isspace r1) of
             None \<Rightarrow> None
           | Some r2 \<Rightarrow>
               (case scan_d r2 of
                  None \<Rightarrow> None
                | Some (a, r3) \<Rightarrow>
                    (case scan_d r3 of
                       None \<Rightarrow> None
                     | Some (b, r4) \<Rightarrow> Some (a, b)))))"

definition sscanf_e :: "string \<Rightarrow> (int \<times> int) option" where
  "sscanf_e s =
     (case match_lit ''e'' (c_str s) of
        None \<Rightarrow> None
      | Some r1 \<Rightarrow>
          (case scan_d r1 of
             None \<Rightarrow> None
           | Some (a, r2) \<Rightarrow>
               (case scan_d r2 of
                  None \<Rightarrow> None
                | Some (b, r3) \<Rightarrow> Some (a, b))))"

text \<open>
  \<open>fgets(line, cnt, fp)\<close> on a stream given by the characters still to read: at most
  \<open>cnt - 1\<close> characters, ending after a newline; \<open>None\<close> is the \<open>NULL\<close> at the end
  of the stream. The result is the line and the stream after it.
\<close>

fun fgets_line :: "nat \<Rightarrow> string \<Rightarrow> string \<times> string" where
  "fgets_line 0 s = ([], s)"
| "fgets_line (Suc room) [] = ([], [])"
| "fgets_line (Suc room) (c # cs) =
     (if c = CHR 0x0A then ([c], cs)
      else (case fgets_line room cs of (l, r) \<Rightarrow> (c # l, r)))"

definition fgets :: "nat \<Rightarrow> string \<Rightarrow> (string \<times> string) option" where
  "fgets cnt s = (if s = [] then None else Some (fgets_line (cnt - 1) s))"

lemma fgets_line_shorter: "length (snd (fgets_line room s)) \<le> length s"
  by (induction room s rule: fgets_line.induct) (auto split: prod.splits)

lemma fgets_consumes:
  assumes "1 < cnt" and "fgets cnt s = Some (l, r)"
  shows "length r < length s"
proof -
  obtain c cs where s: "s = c # cs" using assms(2) by (cases s) (auto simp: fgets_def)
  obtain room where cnt: "cnt - 1 = Suc room" using assms(1) by (cases "cnt - 1") auto
  have "fgets_line (Suc room) (c # cs) = (l, r)"
    using assms(2) by (simp add: fgets_def s cnt [symmetric])
  moreover have "length (snd (fgets_line room cs)) \<le> length cs" by (rule fgets_line_shorter)
  ultimately show ?thesis
    by (auto simp: s split: if_splits prod.splits)
qed

text \<open>\<open>line[0] == c\<close> for a line that \<open>fgets\<close> returned, or a buffer.\<close>

definition starts_with :: "char \<Rightarrow> string \<Rightarrow> bool" where
  "starts_with c line = (case line of [] \<Rightarrow> False | x # xs \<Rightarrow> x = c)"

section \<open>The encoder \<open>color2sat\<close>: graph and clauses\<close>

text \<open>
  \<open>typedef struct { int n; int m; int (*edges)[2]; } Graph;\<close> The fields carry the
  prefix \<open>g_\<close> so that \<open>n\<close> and \<open>m\<close> stay free for variables.
\<close>

record Graph =
  g_n :: int
  g_m :: int
  g_edges :: "(int \<times> int) list"

text \<open>
  A literal as the encoder prints it: \<open>printf("%ld ", x)\<close> is \<open>Pos x\<close> and
  \<open>printf("-%ld ", x)\<close> is \<open>Neg x\<close>. A clause is the list of literals of one output
  line (the closing \<open>0\<close> is not kept).
\<close>

datatype literal = Pos int | Neg int

type_synonym clause = "literal list"

record cnf_output =
  num_vars :: int
  num_clauses :: int
  clauses :: "clause list"

text \<open>
  The expression \<open>(v - 1) * k + i\<close>: its value over the integers, and its computation
  in the program, where \<open>v\<close> and \<open>i\<close> are \<open>int\<close> and \<open>k\<close> is \<open>long\<close>.
\<close>

definition var_number :: "int \<Rightarrow> int \<Rightarrow> int \<Rightarrow> int" where
  "var_number v k i = (v - 1) * k + i"

definition var_index :: "int \<Rightarrow> int \<Rightarrow> int \<Rightarrow> error + int" where
  "var_index v k i =
     bindE (chk_int (v - 1)) (\<lambda>a. bindE (chk_long (a * k)) (\<lambda>b. chk_long (b + i)))"

text \<open>C division truncates towards zero.\<close>

definition c_div :: "int \<Rightarrow> int \<Rightarrow> int" where
  "c_div a b = sgn a * sgn b * (\<bar>a\<bar> div \<bar>b\<bar>)"

text \<open>
  The header values: \<open>int num_vars = n * k\<close> multiplies in \<open>long\<close> and converts to
  \<open>int\<close>; \<open>num_clauses\<close> is accumulated in \<open>long long\<close>.
\<close>

definition cnf_header :: "int \<Rightarrow> int \<Rightarrow> int \<Rightarrow> error + (int \<times> int)" where
  "cnf_header nn mm k =
     bindE (chk_long (nn * k)) (\<lambda>nk.
     bindE (chk_long (0 + nn)) (\<lambda>c1.
     bindE (chk_long (nn * k)) (\<lambda>p1.
     bindE (chk_long (k - 1)) (\<lambda>k1.
     bindE (chk_long (p1 * k1)) (\<lambda>p2.
     bindE (chk_long (c1 + c_div p2 2)) (\<lambda>c2.
     bindE (chk_long (mm * k)) (\<lambda>p3.
     bindE (chk_long (c2 + p3)) (\<lambda>c3.
     Inr (to_int nk, c3)))))))))"

text \<open>First loop nest: one clause per vertex with its \<open>k\<close> positive literals.\<close>

definition coverage :: "int \<Rightarrow> int \<Rightarrow> error + clause list" where
  "coverage nn k =
     for_int 1 nn (\<lambda>v.
       bindE (for_int 1 k (\<lambda>i. bindE (var_index v k i) (\<lambda>x. Inr [Pos x])))
         (\<lambda>c. Inr [c]))"

text \<open>Second loop nest: one clause per vertex and pair of colours \<open>i < j\<close>.\<close>

definition exclusivity :: "int \<Rightarrow> int \<Rightarrow> error + clause list" where
  "exclusivity nn k =
     for_int 1 nn (\<lambda>v.
       for_int 1 k (\<lambda>i.
         for_int (i + 1) k (\<lambda>j.
           bindE (var_index v k i) (\<lambda>a.
           bindE (var_index v k j) (\<lambda>b. Inr [[Neg a, Neg b]])))))"

text \<open>\<open>edges[e]\<close>; the array holds the edges that were read.\<close>

definition edge_at :: "(int \<times> int) list \<Rightarrow> int \<Rightarrow> error + (int \<times> int)" where
  "edge_at es e = (if 0 \<le> e \<and> nat e < length es then Inr (es ! nat e) else Inl OutOfBounds)"

text \<open>
  Third loop nest: \<open>for (int e = 0; e < m; e++)\<close>, the bound \<open>e < m\<close> written as
  \<open>e \<le> m - 1\<close>, and one clause per edge and colour.
\<close>

definition adjacency :: "(int \<times> int) list \<Rightarrow> int \<Rightarrow> int \<Rightarrow> error + clause list" where
  "adjacency es mm k =
     for_int 0 (mm - 1) (\<lambda>e.
       bindE (edge_at es e) (\<lambda>(u, w).
         for_int 1 k (\<lambda>i.
           bindE (var_index u k i) (\<lambda>a.
           bindE (var_index w k i) (\<lambda>b. Inr [[Neg a, Neg b]])))))"

text \<open>Lines 369 to 415 of \<open>main\<close>: the header, then the three clause families.\<close>

definition emit_cnf :: "Graph \<Rightarrow> int \<Rightarrow> error + cnf_output" where
  "emit_cnf g k =
     bindE (cnf_header (g_n g) (g_m g) k) (\<lambda>(nv, nc).
     bindE (coverage (g_n g) k) (\<lambda>c1.
     bindE (exclusivity (g_n g) k) (\<lambda>c2.
     bindE (adjacency (g_edges g) (g_m g) k) (\<lambda>c3.
     Inr \<lparr>num_vars = nv, num_clauses = nc, clauses = c1 @ c2 @ c3\<rparr>))))"

section \<open>The encoder \<open>color2sat\<close>: reading the graph, \<open>main\<close>\<close>

text \<open>
  The first loop of \<open>read_graph\<close>: lines are read until one starts with \<open>p\<close>; that line
  must scan as a problem line. At the end of the stream \<open>n\<close> and \<open>m\<close> keep their
  initial 0. The result is \<open>n\<close>, \<open>m\<close> and the stream after the line.
\<close>

function find_problem_line :: "string \<Rightarrow> error + (int \<times> int \<times> string)" where
  "find_problem_line fp =
     (case fgets 256 fp of
        None \<Rightarrow> Inr (0, 0, fp)
      | Some (line, fp') \<Rightarrow>
          if starts_with CHR ''p'' line then
            (case sscanf_p_edge line of
               None \<Rightarrow> Inl InvalidProblemLine
             | Some (a, b) \<Rightarrow> Inr (a, b, fp'))
          else find_problem_line fp')"
  by pat_completeness auto
termination
proof (relation "measure length")
  fix fp :: string and x2 line fp'
  assume "fgets 256 fp = Some x2" "(line, fp') = x2"
  then have "fgets 256 fp = Some (line, fp')" by simp
  then have "length fp' < length fp" by (rule fgets_consumes [rotated]) simp
  then show "(fp', fp) \<in> measure length" by simp
qed simp

declare find_problem_line.simps [simp del]

text \<open>
  The second loop: \<open>count\<close> is the number of edges recorded so far, the length of
  \<open>es\<close>. A line that starts with \<open>e\<close> while \<open>count < m\<close> is recorded when it scans
  as an edge and passed over when it does not; any other line ends the program.
\<close>

function read_edges :: "int \<Rightarrow> (int \<times> int) list \<Rightarrow> string \<Rightarrow> error + (int \<times> int) list" where
  "read_edges mm es fp =
     (case fgets 256 fp of
        None \<Rightarrow> Inr es
      | Some (line, fp') \<Rightarrow>
          if starts_with CHR ''e'' line \<and> int (length es) < mm then
            (case sscanf_e line of
               Some (u, v) \<Rightarrow> read_edges mm (es @ [(u, v)]) fp'
             | None \<Rightarrow> read_edges mm es fp')
          else Inl InvalidEdgeLine)"
  by pat_completeness auto
termination
proof (relation "measure (\<lambda>(mm, es, fp). length fp)")
  fix mm :: int and es :: "(int \<times> int) list" and fp :: string and x2 line fp'
  assume "fgets 256 fp = Some x2" "(line, fp') = x2"
  then have "fgets 256 fp = Some (line, fp')" by simp
  then have *: "length fp' < length fp" by (rule fgets_consumes [rotated]) simp
  show "((mm, es, fp'), mm, es, fp) \<in> measure (\<lambda>(mm, es, fp). length fp)"
    using * by simp
  fix u v :: int
  show "((mm, es @ [(u, v)], fp'), mm, es, fp) \<in> measure (\<lambda>(mm, es, fp). length fp)"
    using * by simp
qed simp

declare read_edges.simps [simp del]

text \<open>
  \<open>read_graph\<close>: \<open>malloc_ok\<close> says for which sizes in bytes \<open>malloc\<close> returns a block;
  \<open>sizeof(*g)\<close> is 16 and \<open>sizeof(*g->edges)\<close> is 8. The second argument is the content
  of the stream the file name opens (\<open>None\<close> when \<open>fopen\<close> fails). The result is the
  graph and whether the warning about the edge count was printed.
\<close>

definition read_graph :: "(nat \<Rightarrow> bool) \<Rightarrow> string option \<Rightarrow> error + (Graph \<times> bool)" where
  "read_graph malloc_ok file =
     (case file of
        None \<Rightarrow> Inl OpenFailed
      | Some fp \<Rightarrow>
          bindE (find_problem_line fp) (\<lambda>(nn, mm, fp').
            if nn \<le> 0 \<or> mm < 0 then Inl InvalidNM
            else if \<not> malloc_ok 16 then Inl AllocGraphFailed
            else if \<not> malloc_ok (nat mm * 8) then Inl AllocEdgesFailed
            else
              bindE (read_edges mm [] fp') (\<lambda>es.
                let count = int (length es) in
                if count \<noteq> mm then Inr (\<lparr>g_n = nn, g_m = count, g_edges = es\<rparr>, True)
                else Inr (\<lparr>g_n = nn, g_m = mm, g_edges = es\<rparr>, False))))"

text \<open>The check of the argument \<open>k\<close> in the encoder: \<open>*endptr != '\0' || k <= 0\<close>.\<close>

definition encoder_parse_k :: "string \<Rightarrow> error + int" where
  "encoder_parse_k arg =
     (case strtol arg of (k, endptr) \<Rightarrow> if endptr \<noteq> [] \<or> k \<le> 0 then Inl InvalidK else Inr k)"

text \<open>
  \<open>main\<close> of the encoder on \<open>argv\<close>, with what \<open>malloc\<close> grants and the content of
  the file \<open>argv[1]\<close> names: the output and whether the warning was printed.
\<close>

definition color2sat_main ::
  "(nat \<Rightarrow> bool) \<Rightarrow> string list \<Rightarrow> string option \<Rightarrow> error + (cnf_output \<times> bool)" where
  "color2sat_main malloc_ok argv file =
     (if length argv \<noteq> 3 then Inl Usage
      else
        bindE (encoder_parse_k (argv ! 2)) (\<lambda>k.
        bindE (read_graph malloc_ok file) (\<lambda>(g, warned).
        bindE (emit_cnf g k) (\<lambda>out. Inr (out, warned)))))"



text \<open>
  Two machines: one where every \<open>malloc\<close> returns a block, one that grants no block of
  8 GiB or more.
\<close>

definition always_allocates :: "nat \<Rightarrow> bool" where
  "always_allocates sz \<longleftrightarrow> True"


text \<open>Input texts: a newline, and the examples used below.\<close>

definition nl :: string where
  "nl = [CHR 0x0A]"

definition triangle_col :: string where
  "triangle_col = ''c triangle'' @ nl @ ''p edge 3 3'' @ nl @ ''e 1 2'' @ nl @ ''e 2 3'' @ nl @ ''e 1 3'' @ nl"

definition edgeless3_col :: string where
  "edgeless3_col = ''p edge 3 0'' @ nl"

definition edgeless6_col :: string where
  "edgeless6_col = ''p edge 6 0'' @ nl"


definition broken_edge_col :: string where
  "broken_edge_col = ''p edge 3 2'' @ nl @ ''e 1'' @ nl"

definition stray_endpoint_col :: string where
  "stray_endpoint_col = ''p edge 2 1'' @ nl @ ''e 1 5'' @ nl"


section \<open>The driver \<open>k-colorability\<close>\<close>

text \<open>The check of the option \<open>-k\<close>: \<open>strtol(optarg, NULL, 10)\<close>, then \<open>k_override <= 0\<close>.\<close>

definition driver_parse_k :: "string \<Rightarrow> error + int" where
  "driver_parse_k optarg =
     (case strtol optarg of (k_override, endptr) \<Rightarrow>
        if k_override \<le> 0 then Inl InvalidK else Inr k_override)"

text \<open>
  \<open>parse_header\<close>: the buffer is a C string. It is scanned from the start of each
  line; the first position that starts with \<open>p\<close> and scans as a problem line gives
  the vertex count. \<open>strchr(p, '\n')\<close> and \<open>++p\<close> move to the character after the
  next newline of the string.
\<close>

function parse_header :: "string \<Rightarrow> int option" where
  "parse_header p =
     (case (if starts_with CHR ''p'' p then sscanf_p_edge p else None) of
        Some (nn, mm) \<Rightarrow> Some nn
      | None \<Rightarrow>
          (case dropWhile (\<lambda>c. c \<noteq> CHR 0x0A) (c_str p) of
             [] \<Rightarrow> None
           | c # rest \<Rightarrow> parse_header rest))"
  by pat_completeness auto
termination
proof (relation "measure length")
  fix p :: string and c rest
  assume "dropWhile (\<lambda>c. c \<noteq> CHR 0x0A) (c_str p) = c # rest"
  then have "length (c # rest) \<le> length (c_str p)"
    using length_dropWhile_le [of "\<lambda>c. c \<noteq> CHR 0x0A" "c_str p"] by simp
  moreover have "length (c_str p) \<le> length p"
    unfolding c_str_def by (rule length_takeWhile_le)
  ultimately show "(rest, p) \<in> measure length" by simp
qed simp

declare parse_header.simps [simp del]

text \<open>
  What one call of \<open>run_color_minisat\<close> meets in its environment: whether \<open>pipe\<close> and
  the two \<open>fork\<close>s fail; whether the \<open>write\<close> of the graph finds the read end of its
  pipe closed, the encoder child having ended already (the signal SIGPIPE, for which the
  driver installs no handler, then ends the driver); and the result file as the parent
  finds it after both children have ended (\<open>None\<close>: it cannot be opened). A child that
  cannot \<open>exec\<close> its program ends itself with \<open>ERROR_EXIT\<close>; the parent goes on.
\<close>

record round_env =
  pipe_fails :: bool
  fork1_fails :: bool
  sigpipe :: bool
  fork2_fails :: bool
  result_file :: "string option"

text \<open>A call returns its \<open>int\<close>, or the driver is killed inside it.\<close>

datatype run_result = Return int | KilledBySIGPIPE

definition run_color_minisat :: "round_env \<Rightarrow> run_result" where
  "run_color_minisat r =
     (if pipe_fails r then Return (- 1)
      else if fork1_fails r then Return (- 1)
      else if sigpipe r then KilledBySIGPIPE
      else if fork2_fails r then Return (- 1)
      else
        (case result_file r of
           None \<Rightarrow> Return (- 1)
         | Some content \<Rightarrow>
             (case fgets 32 content of
                None \<Rightarrow> Return (- 1)
              | Some (line, rest) \<Rightarrow> if take 3 line = ''SAT'' then Return 0 else Return (- 1))))"

text \<open>
  The environment of a run of the driver: whether \<open>mkstemp\<close> fails, what the round
  for each \<open>k\<close> meets, and whether \<open>main\<close>'s own \<open>fopen\<close> of the result file and
  of the output file fail.
\<close>

record driver_env =
  mkstemp_fails :: bool
  rounds :: "int \<Rightarrow> round_env"
  fopen_result_fails :: bool
  fopen_out_fails :: bool

datatype exit_status = EXIT_SUCCESS | EXIT_FAILURE | KILLED_BY_SIGPIPE

text \<open>
  How a run ends: the exit status (or the signal that killed the driver), the
  \<open>ERROR_EXIT\<close> that ended it if one did, the
  values of \<open>k\<close> for which a round was run, the \<open>k\<close> written as the answer, and
  whether the temporary result file that \<open>mkstemp\<close> created has been left in place
  (it is there from \<open>mkstemp\<close> until \<open>remove(tmpfile)\<close>).
\<close>

record outcome =
  status :: exit_status
  fatal :: "error option"
  tried :: "int list"
  answer :: "int option"
  tmp_exists :: bool

text \<open>
  \<open>for (long k = k_start; !found && k <= max_k; ++k)\<close> with its body, and the lines
  after the loop: \<open>remove(tmpfile)\<close> and the return. \<open>out\<close> says whether \<open>-o\<close> gave
  an output file.
\<close>

function search_loop ::
  "driver_env \<Rightarrow> bool \<Rightarrow> int \<Rightarrow> int \<Rightarrow> bool \<Rightarrow> int list \<Rightarrow> int option \<Rightarrow> outcome" where
  "search_loop env out max_k k found ks ans =
     (if \<not> found \<and> k \<le> max_k then
        (case run_color_minisat (rounds env k) of
           KilledBySIGPIPE \<Rightarrow>
             \<lparr>status = KILLED_BY_SIGPIPE, fatal = None, tried = ks @ [k],
              answer = None, tmp_exists = True\<rparr>
         | Return rc \<Rightarrow>
             if rc = 0 then
               (if fopen_result_fails env then
                  \<lparr>status = EXIT_FAILURE, fatal = Some ResultOpenFailed, tried = ks @ [k],
                   answer = None, tmp_exists = True\<rparr>
                else if out \<and> fopen_out_fails env then
                  \<lparr>status = EXIT_FAILURE, fatal = Some OutputOpenFailed, tried = ks @ [k],
                   answer = None, tmp_exists = True\<rparr>
                else search_loop env out max_k (k + 1) True (ks @ [k]) (Some k))
             else search_loop env out max_k (k + 1) found (ks @ [k]) ans)
      else
        \<lparr>status = (if found then EXIT_SUCCESS else EXIT_FAILURE), fatal = None, tried = ks,
         answer = ans, tmp_exists = False\<rparr>)"
  by pat_completeness auto
termination
  by (relation "measure (\<lambda>(env, out, max_k, k, found, ks, ans). nat (max_k + 1 - k))") auto

declare search_loop.simps [simp del]

text \<open>
  \<open>main\<close> of the driver: \<open>k_arg\<close> is the argument of \<open>-k\<close> if the option was given,
  \<open>outfile\<close> that of \<open>-o\<close>, \<open>graph\<close> the content of the input as \<open>load_file\<close>
  returns it (\<open>None\<close> when \<open>load_file\<close> ends the run).
\<close>

definition driver_main ::
  "driver_env \<Rightarrow> string option \<Rightarrow> string option \<Rightarrow> string option \<Rightarrow> outcome" where
  "driver_main env k_arg outfile graph =
     (let stop = (\<lambda>e. \<lparr>status = EXIT_FAILURE, fatal = Some e, tried = [], answer = None,
                        tmp_exists = False\<rparr>) in
      case (case k_arg of None \<Rightarrow> Inr 0 | Some a \<Rightarrow> driver_parse_k a) of
        Inl e \<Rightarrow> stop e
      | Inr k_override \<Rightarrow>
          (case graph of
             None \<Rightarrow> stop OpenFailed
           | Some graph_buf \<Rightarrow>
               (case parse_header graph_buf of
                  None \<Rightarrow> stop NoHeader
                | Some max_k \<Rightarrow>
                    if mkstemp_fails env then stop MkstempFailed
                    else
                      search_loop env (outfile \<noteq> None) max_k
                        (if k_override > 0 then k_override else 2) False [] None)))"

text \<open>
  The outcome of an \<open>ERROR_EXIT\<close> before the temporary file exists, and the run of
  \<open>main\<close> from \<open>load_file\<close> on for a given start \<open>k_start\<close> of the loop.
\<close>

definition fatal_before_search :: "error \<Rightarrow> outcome" where
  "fatal_before_search e =
     \<lparr>status = EXIT_FAILURE, fatal = Some e, tried = [], answer = None, tmp_exists = False\<rparr>"

definition search_from :: "driver_env \<Rightarrow> string option \<Rightarrow> string option \<Rightarrow> int \<Rightarrow> outcome" where
  "search_from env outfile graph k_start =
     (case graph of
        None \<Rightarrow> fatal_before_search OpenFailed
      | Some graph_buf \<Rightarrow>
          (case parse_header graph_buf of
             None \<Rightarrow> fatal_before_search NoHeader
           | Some max_k \<Rightarrow>
               if mkstemp_fails env then fatal_before_search MkstempFailed
               else search_loop env (outfile \<noteq> None) max_k k_start False [] None))"

text \<open>
  The round for \<open>k\<close> returns 0; the first \<open>k\<close> of a range whose round returns 0; no
  round of a range has the driver killed.
\<close>

definition round_ok :: "driver_env \<Rightarrow> int \<Rightarrow> bool" where
  "round_ok env k \<longleftrightarrow> run_color_minisat (rounds env k) = Return 0"

definition first_round_ok :: "driver_env \<Rightarrow> int \<Rightarrow> int \<Rightarrow> int option" where
  "first_round_ok env k_start max_k = find (round_ok env) [k_start..max_k]"

definition no_sigpipe :: "driver_env \<Rightarrow> int \<Rightarrow> int \<Rightarrow> bool" where
  "no_sigpipe env k_start max_k \<longleftrightarrow>
     list_all (\<lambda>k. run_color_minisat (rounds env k) \<noteq> KilledBySIGPIPE) [k_start..max_k]"

text \<open>
  Rounds and environments of the examples: the solver answers SAT, or UNSAT, or
  \<open>pipe\<close> fails.
\<close>

definition sat_round :: round_env where
  "sat_round = \<lparr>pipe_fails = False, fork1_fails = False, sigpipe = False, fork2_fails = False,
     result_file = Some (''SAT'' @ nl @ ''1 -2 -3 4 0'' @ nl)\<rparr>"

definition unsat_round :: round_env where
  "unsat_round = \<lparr>pipe_fails = False, fork1_fails = False, sigpipe = False, fork2_fails = False,
     result_file = Some (''UNSAT'' @ nl)\<rparr>"

definition no_pipe_round :: round_env where
  "no_pipe_round = \<lparr>pipe_fails = True, fork1_fails = False, sigpipe = False, fork2_fails = False,
     result_file = Some []\<rparr>"

definition always_sat_env :: driver_env where
  "always_sat_env = \<lparr>mkstemp_fails = False, rounds = (\<lambda>k. sat_round),
     fopen_result_fails = False, fopen_out_fails = False\<rparr>"

definition sat_from_3_env :: driver_env where
  "sat_from_3_env = \<lparr>mkstemp_fails = False,
     rounds = (\<lambda>k. if k < 3 then unsat_round else sat_round),
     fopen_result_fails = False, fopen_out_fails = False\<rparr>"

definition no_pipe_at_2_env :: driver_env where
  "no_pipe_at_2_env = \<lparr>mkstemp_fails = False,
     rounds = (\<lambda>k. if k = 2 then no_pipe_round else sat_round),
     fopen_result_fails = False, fopen_out_fails = False\<rparr>"

definition no_outfile_env :: driver_env where
  "no_outfile_env = \<lparr>mkstemp_fails = False, rounds = (\<lambda>k. sat_round),
     fopen_result_fails = False, fopen_out_fails = True\<rparr>"

section \<open>The three clause families as the specification words them\<close>

text \<open>
  Coverage: for each vertex \<open>v\<close> in \<open>1..n\<close> one clause with the \<open>k\<close> positive literals
  \<open>(v-1)*k+1 .. (v-1)*k+k\<close>. Exclusivity: for each vertex and each pair of colours
  \<open>1 \<le> i < j \<le> k\<close> the clause of the two negated literals. Adjacency: for each edge
  \<open>(u, w)\<close> and each colour \<open>c\<close> in \<open>1..k\<close> the clause of the two negated literals.
\<close>

definition spec_coverage :: "int \<Rightarrow> int \<Rightarrow> clause list" where
  "spec_coverage nn k = map (\<lambda>v. map Pos [(v - 1) * k + 1..(v - 1) * k + k]) [1..nn]"

definition spec_exclusivity :: "int \<Rightarrow> int \<Rightarrow> clause list" where
  "spec_exclusivity nn k =
     concat (map (\<lambda>v. concat (map (\<lambda>i. map (\<lambda>j.
       [Neg ((v - 1) * k + i), Neg ((v - 1) * k + j)]) [i + 1..k]) [1..k])) [1..nn])"

definition spec_adjacency :: "(int \<times> int) list \<Rightarrow> int \<Rightarrow> clause list" where
  "spec_adjacency es k =
     concat (map (\<lambda>(u, w). map (\<lambda>c.
       [Neg ((u - 1) * k + c), Neg ((w - 1) * k + c)]) [1..k]) es)"

definition spec_formula :: "int \<Rightarrow> (int \<times> int) list \<Rightarrow> int \<Rightarrow> clause list" where
  "spec_formula nn es k = spec_coverage nn k @ spec_exclusivity nn k @ spec_adjacency es k"

section \<open>Graphs, colourings and satisfiability\<close>

text \<open>
  The invariant of a GraphModel: a positive vertex count, \<open>m\<close> the number of recorded
  edges, every endpoint in \<open>[1, n]\<close>; \<open>n\<close> and \<open>m\<close> are C \<open>int\<close>s.
\<close>

definition valid_graph :: "Graph \<Rightarrow> bool" where
  "valid_graph g \<longleftrightarrow>
     0 < g_n g \<and> g_n g \<le> INT_MAX \<and> g_m g = int (length (g_edges g)) \<and> g_m g \<le> INT_MAX \<and>
     (\<forall>(u, w) \<in> set (g_edges g). 1 \<le> u \<and> u \<le> g_n g \<and> 1 \<le> w \<and> w \<le> g_n g)"

text \<open>
  The inputs on which the encoder's run is defined by the C standard: the \<open>int\<close> loop
  counters \<open>v\<close>, \<open>i\<close> and \<open>j\<close> stop below \<open>INT_MAX\<close>, and the product
  \<open>(long long)n * k * (k - 1)\<close> of the header fits 64 bits.
\<close>

definition no_overflow :: "Graph \<Rightarrow> int \<Rightarrow> bool" where
  "no_overflow g k \<longleftrightarrow>
     g_n g < INT_MAX \<and> k < INT_MAX \<and> g_n g * k * (k - 1) \<le> LONG_MAX"

text \<open>
  The triangle, and graphs without an edge: of one vertex, of three, of 65536 and of
  \<open>INT_MAX\<close> vertices.
\<close>

definition triangle :: Graph where
  "triangle = \<lparr>g_n = 3, g_m = 3, g_edges = [(1, 2), (2, 3), (1, 3)]\<rparr>"

definition edgeless3 :: Graph where
  "edgeless3 = \<lparr>g_n = 3, g_m = 0, g_edges = []\<rparr>"

definition single_vertex :: Graph where
  "single_vertex = \<lparr>g_n = 1, g_m = 0, g_edges = []\<rparr>"

definition edgeless_INT_MAX :: Graph where
  "edgeless_INT_MAX = \<lparr>g_n = 2147483647, g_m = 0, g_edges = []\<rparr>"

definition edgeless65536 :: Graph where
  "edgeless65536 = \<lparr>g_n = 65536, g_m = 0, g_edges = []\<rparr>"

definition proper_coloring :: "Graph \<Rightarrow> int \<Rightarrow> (int \<Rightarrow> int) \<Rightarrow> bool" where
  "proper_coloring g k col \<longleftrightarrow>
     (\<forall>v. 1 \<le> v \<and> v \<le> g_n g \<longrightarrow> 1 \<le> col v \<and> col v \<le> k) \<and>
     (\<forall>(u, w) \<in> set (g_edges g). col u \<noteq> col w)"

definition k_colorable :: "Graph \<Rightarrow> int \<Rightarrow> bool" where
  "k_colorable g k \<longleftrightarrow> (\<exists>col. proper_coloring g k col)"

text \<open>
  A printed literal under an assignment of the variables: \<open>x\<close> stands for the variable
  \<open>x\<close> true, \<open>-x\<close> for it false.
\<close>

fun lit_true :: "(int \<Rightarrow> bool) \<Rightarrow> literal \<Rightarrow> bool" where
  "lit_true \<sigma> (Pos x) = \<sigma> x"
| "lit_true \<sigma> (Neg x) = (\<not> \<sigma> x)"

fun lit_var :: "literal \<Rightarrow> int" where
  "lit_var (Pos x) = x"
| "lit_var (Neg x) = x"

definition clause_true :: "(int \<Rightarrow> bool) \<Rightarrow> clause \<Rightarrow> bool" where
  "clause_true \<sigma> c \<longleftrightarrow> (\<exists>l \<in> set c. lit_true \<sigma> l)"

definition satisfiable :: "clause list \<Rightarrow> bool" where
  "satisfiable cs \<longleftrightarrow> (\<exists>\<sigma>. \<forall>c \<in> set cs. clause_true \<sigma> c)"

section \<open>The encoder's loops compute the three families\<close>

lemma bindE_Inr [simp]: "bindE (Inr x) f = f x"
  by (simp add: bindE_def)

lemma bindE_Inl [simp]: "bindE (Inl e) f = Inl e"
  by (simp add: bindE_def)

lemma for_int_Inr:
  assumes "lo \<le> INT_MAX" and "hi < INT_MAX"
    and "\<And>i. lo \<le> i \<Longrightarrow> i \<le> hi \<Longrightarrow> body i = Inr (f i)"
  shows "for_int lo hi body = Inr (concat (map f [lo..hi]))"
  using assms
proof (induction lo hi body rule: for_int.induct)
  case (1 i hi body)
  show ?case
  proof (cases "i \<le> hi")
    case True
    have rest: "for_int (i + 1) hi body = Inr (concat (map f [i + 1..hi]))"
      using "1.IH" "1.prems" True by simp
    have "[i..hi] = i # [i + 1..hi]"
      using True by (simp add: upto_rec1)
    then show ?thesis
      using "1.prems" True rest by (subst for_int.simps) simp
  next
    case False
    then show ?thesis
      using "1.prems" by (subst for_int.simps) simp
  qed
qed

lemma for_int_overflow:
  assumes "lo \<le> INT_MAX + 1" and "INT_MAX \<le> hi"
  shows "\<exists>e. for_int lo hi body = Inl e"
  using assms
proof (induction lo hi body rule: for_int.induct)
  case (1 i hi body)
  show ?case
  proof (cases "INT_MAX < i")
    case True
    then show ?thesis by (subst for_int.simps) simp
  next
    case False
    then obtain e where "for_int (i + 1) hi body = Inl e"
      using "1.IH" "1.prems" by auto
    then show ?thesis
      using False "1.prems" by (subst for_int.simps) (cases "body i"; simp)
  qed
qed

lemma var_index_ok:
  assumes "1 \<le> v" "v \<le> INT_MAX" "0 \<le> k" "k \<le> INT_MAX" "0 \<le> i" "i \<le> INT_MAX"
  shows "var_index v k i = Inr ((v - 1) * k + i)"
proof -
  define p where "p = (v - 1) * k"
  have a: "0 \<le> p" using assms by (simp add: p_def)
  have "p \<le> INT_MAX * INT_MAX"
    unfolding p_def using assms by (intro mult_mono) (simp_all add: INT_MAX_def)
  then have b: "p \<le> 4611686014132420609" by (simp add: INT_MAX_def)
  have "var_index v k i = Inr (p + i)"
    using assms a b unfolding p_def [symmetric] var_index_def
    by (simp add: chk_int_def chk_long_def INT_MAX_def INT_MIN_def LONG_MAX_def LONG_MIN_def p_def [symmetric])
  then show ?thesis by (simp add: p_def)
qed

lemma map_add_upto: "map (\<lambda>i. a + i) [1..k] = [a + 1..a + k]"
proof (induction "nat k" arbitrary: k)
  case 0
  then show ?case by simp
next
  case (Suc x)
  then have k: "0 < k" and x: "x = nat (k - 1)" by auto
  have l: "[1..k] = [1..k - 1] @ [k]" using k by (simp add: upto_rec2)
  have r: "[a + 1..a + k] = [a + 1..a + (k - 1)] @ [a + k]"
    using k upto_rec2 [of "a + 1" "a + k"] by (simp add: add_diff_eq)
  have "map (\<lambda>i. a + i) [1..k - 1] = [a + 1..a + (k - 1)]" using Suc.hyps(1) [OF x] .
  then show ?case by (simp only: l r map_append list.map)
qed

lemma concat_map_single: "concat (map (\<lambda>x. [f x]) xs) = map f xs"
  by (induction xs) simp_all

lemma INT_MAX_pos: "1 \<le> INT_MAX" "0 \<le> INT_MAX"
  by (simp_all add: INT_MAX_def)

lemma coverage_refines:
  assumes "nn < INT_MAX" "0 \<le> k" "k < INT_MAX"
  shows "coverage nn k = Inr (spec_coverage nn k)"
proof -
  have inner: "for_int 1 k (\<lambda>i. bindE (var_index v k i) (\<lambda>x. Inr [Pos x]))
      = Inr (map Pos [(v - 1) * k + 1..(v - 1) * k + k])" if v: "1 \<le> v" "v \<le> nn" for v
  proof -
    have "for_int 1 k (\<lambda>i. bindE (var_index v k i) (\<lambda>x. Inr [Pos x]))
        = Inr (concat (map (\<lambda>i. [Pos ((v - 1) * k + i)]) [1..k]))"
    proof (rule for_int_Inr)
      fix i assume "1 \<le> i" "i \<le> k"
      then have "var_index v k i = Inr ((v - 1) * k + i)"
        using assms v by (intro var_index_ok) simp_all
      then show "bindE (var_index v k i) (\<lambda>x. Inr [Pos x]) = Inr [Pos ((v - 1) * k + i)]"
        by simp
    qed (use assms in \<open>simp_all add: INT_MAX_pos\<close>)
    then show ?thesis
      by (simp add: concat_map_single map_add_upto [symmetric] comp_def)
  qed
  have "coverage nn k = Inr (concat (map (\<lambda>v. [map Pos [(v - 1) * k + 1..(v - 1) * k + k]]) [1..nn]))"
    unfolding coverage_def
  proof (rule for_int_Inr)
    fix v assume "1 \<le> v" "v \<le> nn"
    then show "bindE (for_int 1 k (\<lambda>i. bindE (var_index v k i) (\<lambda>x. Inr [Pos x]))) (\<lambda>c. Inr [c])
      = Inr [map Pos [(v - 1) * k + 1..(v - 1) * k + k]]"
      by (simp add: inner)
  qed (use assms in \<open>simp_all add: INT_MAX_pos\<close>)
  then show ?thesis
    by (simp add: concat_map_single spec_coverage_def)
qed

lemma exclusivity_refines:
  assumes "nn < INT_MAX" "0 \<le> k" "k < INT_MAX"
  shows "exclusivity nn k = Inr (spec_exclusivity nn k)"
  unfolding exclusivity_def spec_exclusivity_def
proof (rule for_int_Inr)
  fix v assume v: "1 \<le> v" "v \<le> nn"
  show "for_int 1 k (\<lambda>i. for_int (i + 1) k (\<lambda>j.
          bindE (var_index v k i) (\<lambda>a. bindE (var_index v k j) (\<lambda>b. Inr [[Neg a, Neg b]]))))
      = Inr (concat (map (\<lambda>i. map (\<lambda>j. [Neg ((v - 1) * k + i), Neg ((v - 1) * k + j)]) [i + 1..k]) [1..k]))"
  proof (rule for_int_Inr)
    fix i assume i: "1 \<le> i" "i \<le> k"
    have "for_int (i + 1) k (\<lambda>j.
          bindE (var_index v k i) (\<lambda>a. bindE (var_index v k j) (\<lambda>b. Inr [[Neg a, Neg b]])))
      = Inr (concat (map (\<lambda>j. [[Neg ((v - 1) * k + i), Neg ((v - 1) * k + j)]]) [i + 1..k]))"
    proof (rule for_int_Inr)
      fix j assume j: "i + 1 \<le> j" "j \<le> k"
      have "var_index v k i = Inr ((v - 1) * k + i)"
        using assms v i by (intro var_index_ok) simp_all
      moreover have "var_index v k j = Inr ((v - 1) * k + j)"
        using assms v i j by (intro var_index_ok) simp_all
      ultimately show "bindE (var_index v k i) (\<lambda>a. bindE (var_index v k j) (\<lambda>b. Inr [[Neg a, Neg b]]))
          = Inr [[Neg ((v - 1) * k + i), Neg ((v - 1) * k + j)]]"
        by simp
    qed (use assms i in simp_all)
    then show "for_int (i + 1) k (\<lambda>j.
          bindE (var_index v k i) (\<lambda>a. bindE (var_index v k j) (\<lambda>b. Inr [[Neg a, Neg b]])))
      = Inr (map (\<lambda>j. [Neg ((v - 1) * k + i), Neg ((v - 1) * k + j)]) [i + 1..k])"
      by (simp add: concat_map_single)
  qed (use assms in \<open>simp_all add: INT_MAX_pos\<close>)
qed (use assms in \<open>simp_all add: INT_MAX_pos\<close>)

lemma nth_upto_list: "map (\<lambda>e. es ! nat e) [0..int (length es) - 1] = es"
proof (induction es rule: rev_induct)
  case Nil
  then show ?case by simp
next
  case (snoc x xs)
  have "[0..int (length (xs @ [x])) - 1] = [0..int (length xs) - 1] @ [int (length xs)]"
    using upto_rec2 [of 0 "int (length xs)"] by simp
  moreover have "map (\<lambda>e. (xs @ [x]) ! nat e) [0..int (length xs) - 1] = map (\<lambda>e. xs ! nat e) [0..int (length xs) - 1]"
    by (rule map_cong) (auto simp: nth_append)
  ultimately show ?case using snoc by simp
qed

lemma adjacency_refines:
  assumes "mm = int (length es)" "0 \<le> k" "k < INT_MAX" "mm \<le> INT_MAX"
    and "\<forall>(u, w) \<in> set es. 1 \<le> u \<and> u \<le> INT_MAX \<and> 1 \<le> w \<and> w \<le> INT_MAX"
  shows "adjacency es mm k = Inr (spec_adjacency es k)"
proof -
  let ?f = "\<lambda>(u, w). map (\<lambda>c. [Neg ((u - 1) * k + c), Neg ((w - 1) * k + c)]) [1..k]"
  have "adjacency es mm k = Inr (concat (map (\<lambda>e. ?f (es ! nat e)) [0..mm - 1]))"
    unfolding adjacency_def
  proof (rule for_int_Inr)
    fix e assume e: "0 \<le> e" "e \<le> mm - 1"
    obtain u w where uw: "es ! nat e = (u, w)" by (cases "es ! nat e")
    have "(u, w) \<in> set es" using e assms(1) uw [symmetric] by (auto intro!: nth_mem)
    then have b: "1 \<le> u" "u \<le> INT_MAX" "1 \<le> w" "w \<le> INT_MAX" using assms(5) by auto
    have "for_int 1 k (\<lambda>i. bindE (var_index u k i) (\<lambda>a. bindE (var_index w k i) (\<lambda>b. Inr [[Neg a, Neg b]])))
      = Inr (concat (map (\<lambda>c. [[Neg ((u - 1) * k + c), Neg ((w - 1) * k + c)]]) [1..k]))"
    proof (rule for_int_Inr)
      fix i assume i: "1 \<le> i" "i \<le> k"
      have "var_index u k i = Inr ((u - 1) * k + i)"
        using assms b i by (intro var_index_ok) simp_all
      moreover have "var_index w k i = Inr ((w - 1) * k + i)"
        using assms b i by (intro var_index_ok) simp_all
      ultimately show "bindE (var_index u k i) (\<lambda>a. bindE (var_index w k i) (\<lambda>b. Inr [[Neg a, Neg b]]))
          = Inr [[Neg ((u - 1) * k + i), Neg ((w - 1) * k + i)]]"
        by simp
    qed (use assms in \<open>simp_all add: INT_MAX_pos\<close>)
    then show "bindE (edge_at es e) (\<lambda>(u, w). for_int 1 k (\<lambda>i.
           bindE (var_index u k i) (\<lambda>a. bindE (var_index w k i) (\<lambda>b. Inr [[Neg a, Neg b]]))))
        = Inr (?f (es ! nat e))"
      using e assms(1) uw by (simp add: edge_at_def concat_map_single)
  qed (use assms in \<open>simp_all add: INT_MAX_pos\<close>)
  also have "map (\<lambda>e. ?f (es ! nat e)) [0..mm - 1] = map ?f (map (\<lambda>e. es ! nat e) [0..int (length es) - 1])"
    using assms(1) by (simp add: comp_def)
  finally show ?thesis
    by (simp add: nth_upto_list spec_adjacency_def)
qed

lemma length_concat_int: "int (length (concat xss)) = sum_list (map (\<lambda>xs. int (length xs)) xss)"
  by (induction xss) simp_all

lemma sum_list_const_upto: "0 \<le> nn \<Longrightarrow> sum_list (map (\<lambda>v. c) [1..nn]) = nn * (c::int)"
  by (simp add: sum_list_triv)

lemma gauss_upto:
  "0 \<le> j \<Longrightarrow> 2 * sum_list (map (\<lambda>i. k - i) [1..j]) = 2 * j * k - j * (j + 1)"
proof (induction "nat j" arbitrary: j)
  case 0
  then show ?case by simp
next
  case (Suc x)
  then have j: "0 < j" and x: "x = nat (j - 1)" and j1: "0 \<le> j - 1" by auto
  have l: "[1..j] = [1..j - 1] @ [j]" using j by (simp add: upto_rec2)
  have "2 * sum_list (map (\<lambda>i. k - i) [1..j - 1]) = 2 * (j - 1) * k - (j - 1) * (j - 1 + 1)"
    using Suc.hyps(1) [OF x j1] .
  then show ?case unfolding l by (simp add: algebra_simps)
qed

lemma even_pairs: "even (k * (k - 1 :: int))"
  by simp

lemma length_spec_coverage: "0 \<le> nn \<Longrightarrow> int (length (spec_coverage nn k)) = nn"
  by (simp add: spec_coverage_def)

lemma pairs_of_vertex:
  assumes "0 \<le> k"
  shows "sum_list (map (\<lambda>i. int (length (map (\<lambda>j. [Neg (a + i), Neg (a + j)]) [i + 1..k]))) [1..k])
     = k * (k - 1) div 2"
proof -
  have "map (\<lambda>i. int (length (map (\<lambda>j. [Neg (a + i), Neg (a + j)]) [i + 1..k]))) [1..k]
      = map (\<lambda>i. k - i) [1..k]"
    by (rule map_cong) auto
  then have "sum_list (map (\<lambda>i. int (length (map (\<lambda>j. [Neg (a + i), Neg (a + j)]) [i + 1..k]))) [1..k])
      = sum_list (map (\<lambda>i. k - i) [1..k])"
    by (rule arg_cong)
  moreover have "2 * sum_list (map (\<lambda>i. k - i) [1..k]) = k * (k - 1)"
    using gauss_upto [OF assms, of k] by (simp add: algebra_simps)
  ultimately show ?thesis by linarith
qed

lemma length_spec_exclusivity:
  assumes "0 \<le> nn" "0 \<le> k"
  shows "int (length (spec_exclusivity nn k)) = nn * k * (k - 1) div 2"
proof -
  have "int (length (spec_exclusivity nn k)) = sum_list (map (\<lambda>v. k * (k - 1) div 2) [1..nn])"
    unfolding spec_exclusivity_def
    by (simp add: length_concat_int comp_def pairs_of_vertex [OF assms(2)] del: length_map)
  also have "\<dots> = nn * (k * (k - 1) div 2)"
    using assms(1) by (rule sum_list_const_upto)
  also have "\<dots> = nn * k * (k - 1) div 2"
    using even_pairs [of k] by (simp add: mult.assoc div_mult_swap)
  finally show ?thesis .
qed

lemma length_spec_adjacency:
  assumes "0 \<le> k"
  shows "int (length (spec_adjacency es k)) = int (length es) * k"
proof -
  let ?f = "\<lambda>x. int (length (case x of (u, w) \<Rightarrow>
      map (\<lambda>c. [Neg ((u - 1) * k + c), Neg ((w - 1) * k + c)]) [1..k]))"
  have "map ?f es = map (\<lambda>x. k) es"
    using assms by (intro map_cong) (auto split: prod.splits)
  then have "sum_list (map ?f es) = sum_list (map (\<lambda>x. k) es)"
    by (rule arg_cong)
  then show ?thesis
    unfolding spec_adjacency_def
    by (simp add: length_concat_int comp_def sum_list_triv del: length_map)
qed

lemma cnf_header_exact:
  assumes "0 < nn" "nn \<le> INT_MAX" "0 \<le> mm" "mm \<le> INT_MAX" "1 \<le> k" "k \<le> INT_MAX"
    and "nn * k * (k - 1) \<le> LONG_MAX"
  shows "cnf_header nn mm k = Inr (to_int (nn * k), nn + nn * k * (k - 1) div 2 + mm * k)"
proof -
  define p1 where "p1 = nn * k"
  define p2 where "p2 = p1 * (k - 1)"
  define p3 where "p3 = mm * k"
  have p1: "0 \<le> p1" "p1 \<le> 4611686014132420609"
  proof -
    show "0 \<le> p1" using assms by (simp add: p1_def)
    have "nn * k \<le> INT_MAX * INT_MAX" using assms by (intro mult_mono) simp_all
    then show "p1 \<le> 4611686014132420609" by (simp add: p1_def INT_MAX_def)
  qed
  have p3: "0 \<le> p3" "p3 \<le> 4611686014132420609"
  proof -
    show "0 \<le> p3" using assms by (simp add: p3_def)
    have "mm * k \<le> INT_MAX * INT_MAX" using assms by (intro mult_mono) simp_all
    then show "p3 \<le> 4611686014132420609" by (simp add: p3_def INT_MAX_def)
  qed
  have p2: "0 \<le> p2" "p2 \<le> 9223372036854775807"
    using assms p1 by (simp_all add: p2_def p1_def LONG_MAX_def)
  have d: "c_div p2 2 = p2 div 2" using p2 by (simp add: c_div_def sgn_if)
  have d2: "0 \<le> p2 div 2" "p2 div 2 \<le> 4611686018427387903" using p2 by simp_all
  have "cnf_header nn mm k = Inr (to_int p1, nn + p2 div 2 + p3)"
    unfolding cnf_header_def p1_def [symmetric] p3_def [symmetric]
    using assms(1-6) p1 p2 p3 d2
    by (simp add: chk_long_def LONG_MAX_def LONG_MIN_def INT_MAX_def p2_def [symmetric] d)
  then show ?thesis by (simp add: p1_def p2_def p3_def)
qed

lemma index_div:
  assumes "1 \<le> c" "c \<le> k"
  shows "((v - 1) * k + c - 1) div k = v - (1::int)"
proof -
  have "((v - 1) * k + (c - 1)) div k = (v - 1) + (c - 1) div k"
    using assms by (subst div_mult_self3) simp_all
  moreover have "(c - 1) div k = 0" using assms by simp
  ultimately show ?thesis by (simp add: algebra_simps)
qed

lemma index_inj:
  assumes "1 \<le> c" "c \<le> k" "1 \<le> c'" "c' \<le> k"
    and "(v - 1) * k + c = (v' - 1) * k + (c'::int)"
  shows "v = v' \<and> c = c'"
proof -
  have "((v - 1) * k + c - 1) div k = ((v' - 1) * k + c' - 1) div k"
    using assms(5) by simp
  then have "v = v'"
    using index_div [OF assms(1,2)] index_div [OF assms(3,4)] by simp
  then show ?thesis using assms(5) by simp
qed

lemma index_range:
  assumes "1 \<le> v" "v \<le> nn" "1 \<le> c" "c \<le> (k::int)"
  shows "1 \<le> (v - 1) * k + c \<and> (v - 1) * k + c \<le> nn * k"
proof -
  define p where "p = (v - 1) * k"
  have "0 \<le> p" using assms by (simp add: p_def)
  moreover have "p \<le> (nn - 1) * k"
    unfolding p_def using assms by (intro mult_right_mono) simp_all
  moreover have "(nn - 1) * k = nn * k - k" by (simp add: algebra_simps)
  ultimately have "1 \<le> p + c \<and> p + c \<le> nn * k" using assms by linarith
  then show ?thesis by (simp add: p_def)
qed

lemma in_spec_coverage:
  "c \<in> set (spec_coverage nn k) \<longleftrightarrow>
     (\<exists>v. 1 \<le> v \<and> v \<le> nn \<and> c = map Pos [(v - 1) * k + 1..(v - 1) * k + k])"
  by (auto simp: spec_coverage_def)

lemma in_spec_exclusivity:
  "c \<in> set (spec_exclusivity nn k) \<longleftrightarrow>
     (\<exists>v i j. 1 \<le> v \<and> v \<le> nn \<and> 1 \<le> i \<and> i < j \<and> j \<le> k \<and>
        c = [Neg ((v - 1) * k + i), Neg ((v - 1) * k + j)])"
  by (fastforce simp: spec_exclusivity_def)

lemma in_spec_adjacency:
  "c \<in> set (spec_adjacency es k) \<longleftrightarrow>
     (\<exists>u w i. (u, w) \<in> set es \<and> 1 \<le> i \<and> i \<le> k \<and>
        c = [Neg ((u - 1) * k + i), Neg ((w - 1) * k + i)])"
  by (fastforce simp: spec_adjacency_def)

lemma coverage_clause_true:
  "clause_true \<sigma> (map Pos [a + 1..a + k]) \<longleftrightarrow> (\<exists>c. 1 \<le> c \<and> c \<le> k \<and> \<sigma> (a + c))"
proof
  assume "clause_true \<sigma> (map Pos [a + 1..a + k])"
  then obtain x where x: "a + 1 \<le> x" "x \<le> a + k" "\<sigma> x"
    by (auto simp: clause_true_def)
  then have "1 \<le> x - a \<and> x - a \<le> k \<and> \<sigma> (a + (x - a))" by simp
  then show "\<exists>c. 1 \<le> c \<and> c \<le> k \<and> \<sigma> (a + c)" by blast
next
  assume "\<exists>c. 1 \<le> c \<and> c \<le> k \<and> \<sigma> (a + c)"
  then show "clause_true \<sigma> (map Pos [a + 1..a + k])"
    by (auto simp: clause_true_def)
qed

lemma sat_imp_colorable:
  assumes sat: "satisfiable (spec_formula (g_n g) (g_edges g) k)"
    and ends: "\<forall>(u, w) \<in> set (g_edges g). 1 \<le> u \<and> u \<le> g_n g \<and> 1 \<le> w \<and> w \<le> g_n g"
  shows "k_colorable g k"
proof -
  obtain \<sigma> where \<sigma>: "\<And>c. c \<in> set (spec_formula (g_n g) (g_edges g) k) \<Longrightarrow> clause_true \<sigma> c"
    using sat by (auto simp: satisfiable_def)
  define col where "col v = (SOME c. 1 \<le> c \<and> c \<le> k \<and> \<sigma> ((v - 1) * k + c))" for v
  have col: "1 \<le> col v \<and> col v \<le> k \<and> \<sigma> ((v - 1) * k + col v)" if "1 \<le> v" "v \<le> g_n g" for v
  proof -
    have "map Pos [(v - 1) * k + 1..(v - 1) * k + k] \<in> set (spec_formula (g_n g) (g_edges g) k)"
      using that by (auto simp: spec_formula_def in_spec_coverage)
    then have "\<exists>c. 1 \<le> c \<and> c \<le> k \<and> \<sigma> ((v - 1) * k + c)"
      using \<sigma> coverage_clause_true by blast
    then show ?thesis unfolding col_def by (rule someI_ex)
  qed
  have "col u \<noteq> col w" if e: "(u, w) \<in> set (g_edges g)" for u w
  proof
    assume eq: "col u = col w"
    have u: "1 \<le> u" "u \<le> g_n g" and w: "1 \<le> w" "w \<le> g_n g" using ends e by auto
    have "[Neg ((u - 1) * k + col u), Neg ((w - 1) * k + col u)] \<in> set (spec_formula (g_n g) (g_edges g) k)"
      using e col [OF u] by (auto simp: spec_formula_def in_spec_adjacency)
    then have "clause_true \<sigma> [Neg ((u - 1) * k + col u), Neg ((w - 1) * k + col u)]"
      by (rule \<sigma>)
    then show False
      using col [OF u] col [OF w] eq by (simp add: clause_true_def)
  qed
  then have "proper_coloring g k col"
    using col by (auto simp: proper_coloring_def)
  then show ?thesis by (auto simp: k_colorable_def)
qed

lemma colorable_imp_sat:
  assumes "k_colorable g k"
  shows "satisfiable (spec_formula (g_n g) (g_edges g) k)"
proof -
  obtain col where pc: "proper_coloring g k col"
    using assms by (auto simp: k_colorable_def)
  have range: "1 \<le> col v \<and> col v \<le> k" if "1 \<le> v" "v \<le> g_n g" for v
    using pc that by (simp add: proper_coloring_def)
  have proper: "col u \<noteq> col w" if "(u, w) \<in> set (g_edges g)" for u w
    using pc that by (auto simp: proper_coloring_def)
  define \<sigma> where "\<sigma> x \<longleftrightarrow> (\<exists>v. 1 \<le> v \<and> v \<le> g_n g \<and> x = (v - 1) * k + col v)" for x
  have only: "\<sigma> ((v - 1) * k + c) \<Longrightarrow> 1 \<le> c \<Longrightarrow> c \<le> k \<Longrightarrow> 1 \<le> v \<and> v \<le> g_n g \<and> c = col v" for v c
  proof -
    assume s: "\<sigma> ((v - 1) * k + c)" and c: "1 \<le> c" "c \<le> k"
    then obtain v' where v': "1 \<le> v'" "v' \<le> g_n g" "(v - 1) * k + c = (v' - 1) * k + col v'"
      by (auto simp: \<sigma>_def)
    have "v = v' \<and> c = col v'"
      using c range [OF v'(1,2)] v'(3) by (intro index_inj) simp_all
    then show ?thesis using v' by simp
  qed
  have "clause_true \<sigma> c" if mem: "c \<in> set (spec_formula (g_n g) (g_edges g) k)" for c
  proof -
    consider (cov) "c \<in> set (spec_coverage (g_n g) k)"
      | (exc) "c \<in> set (spec_exclusivity (g_n g) k)"
      | (adj) "c \<in> set (spec_adjacency (g_edges g) k)"
      using mem by (auto simp: spec_formula_def)
    then show ?thesis
    proof cases
      case cov
      then obtain v where v: "1 \<le> v" "v \<le> g_n g" "c = map Pos [(v - 1) * k + 1..(v - 1) * k + k]"
        by (auto simp: in_spec_coverage)
      have "\<sigma> ((v - 1) * k + col v)" using v by (auto simp: \<sigma>_def)
      then show ?thesis
        unfolding v(3) coverage_clause_true using range [OF v(1,2)] by blast
    next
      case exc
      then obtain v i j where x: "1 \<le> i" "i < j" "j \<le> k"
        "c = [Neg ((v - 1) * k + i), Neg ((v - 1) * k + j)]"
        by (auto simp: in_spec_exclusivity)
      have "\<not> (\<sigma> ((v - 1) * k + i) \<and> \<sigma> ((v - 1) * k + j))"
      proof
        assume b: "\<sigma> ((v - 1) * k + i) \<and> \<sigma> ((v - 1) * k + j)"
        have "i = col v" using only [of v i] b x by simp
        moreover have "j = col v" using only [of v j] b x by simp
        ultimately show False using x by simp
      qed
      then show ?thesis by (auto simp: x(4) clause_true_def)
    next
      case adj
      then obtain u w i where x: "(u, w) \<in> set (g_edges g)" "1 \<le> i" "i \<le> k"
        "c = [Neg ((u - 1) * k + i), Neg ((w - 1) * k + i)]"
        by (auto simp: in_spec_adjacency)
      have "\<not> (\<sigma> ((u - 1) * k + i) \<and> \<sigma> ((w - 1) * k + i))"
      proof
        assume b: "\<sigma> ((u - 1) * k + i) \<and> \<sigma> ((w - 1) * k + i)"
        have "i = col u" using only [of u i] b x by simp
        moreover have "i = col w" using only [of w i] b x by simp
        ultimately show False using proper [OF x(1)] by simp
      qed
      then show ?thesis by (auto simp: x(4) clause_true_def)
    qed
  qed
  then show ?thesis by (auto simp: satisfiable_def)
qed

lemma emit_cnf_refines:
  assumes "valid_graph g" "1 \<le> k" "no_overflow g k"
  shows "emit_cnf g k = Inr \<lparr>num_vars = to_int (g_n g * k),
      num_clauses = g_n g + g_n g * k * (k - 1) div 2 + g_m g * k,
      clauses = spec_formula (g_n g) (g_edges g) k\<rparr>"
proof -
  have g: "0 < g_n g" "g_n g \<le> INT_MAX" "g_m g = int (length (g_edges g))" "g_m g \<le> INT_MAX"
    and ends: "\<forall>(u, w) \<in> set (g_edges g). 1 \<le> u \<and> u \<le> g_n g \<and> 1 \<le> w \<and> w \<le> g_n g"
    using assms(1) by (simp_all add: valid_graph_def)
  have b: "g_n g < INT_MAX" "k < INT_MAX" "g_n g * k * (k - 1) \<le> LONG_MAX"
    using assms(3) by (simp_all add: no_overflow_def)
  have ends': "\<forall>(u, w) \<in> set (g_edges g). 1 \<le> u \<and> u \<le> INT_MAX \<and> 1 \<le> w \<and> w \<le> INT_MAX"
    using ends g(2) by fastforce
  have h: "cnf_header (g_n g) (g_m g) k
      = Inr (to_int (g_n g * k), g_n g + g_n g * k * (k - 1) div 2 + g_m g * k)"
    using g b assms(2) by (intro cnf_header_exact) simp_all
  have c1: "coverage (g_n g) k = Inr (spec_coverage (g_n g) k)"
    using b assms(2) by (intro coverage_refines) simp_all
  have c2: "exclusivity (g_n g) k = Inr (spec_exclusivity (g_n g) k)"
    using b assms(2) by (intro exclusivity_refines) simp_all
  have c3: "adjacency (g_edges g) (g_m g) k = Inr (spec_adjacency (g_edges g) k)"
    using g b assms(2) ends' by (intro adjacency_refines) simp_all
  show ?thesis
    by (simp add: emit_cnf_def h c1 c2 c3 spec_formula_def)
qed

lemma length_spec_formula:
  assumes "0 \<le> nn" "0 \<le> k"
  shows "int (length (spec_formula nn es k)) = nn + nn * k * (k - 1) div 2 + int (length es) * k"
proof -
  have "int (length (spec_formula nn es k))
      = int (length (spec_coverage nn k)) + int (length (spec_exclusivity nn k))
        + int (length (spec_adjacency es k))"
    by (simp add: spec_formula_def)
  then show ?thesis
    using assms
    by (simp only: length_spec_coverage length_spec_exclusivity length_spec_adjacency)
qed

lemma emit_cnf_families_and_count:
  assumes "valid_graph g" "1 \<le> k" "no_overflow g k"
  shows "\<exists>out. emit_cnf g k = Inr out \<and>
     clauses out = spec_coverage (g_n g) k @ spec_exclusivity (g_n g) k @ spec_adjacency (g_edges g) k \<and>
     int (length (clauses out)) = g_n g + g_n g * k * (k - 1) div 2 + g_m g * k \<and>
     num_clauses out = int (length (clauses out))"
proof -
  have g: "0 \<le> g_n g" "g_m g = int (length (g_edges g))"
    using assms(1) by (simp_all add: valid_graph_def)
  have "int (length (spec_formula (g_n g) (g_edges g) k))
      = g_n g + g_n g * k * (k - 1) div 2 + g_m g * k"
    using g assms(2) by (simp add: length_spec_formula)
  then show ?thesis
    by (simp add: emit_cnf_refines [OF assms] spec_formula_def)
qed

section \<open>Where the encoder's run is defined\<close>

lemma chk_long_Inr: "chk_long x = Inr y \<longleftrightarrow> y = x \<and> LONG_MIN \<le> x \<and> x \<le> LONG_MAX"
  by (auto simp: chk_long_def)

lemma var_index_error: "var_index v k i = Inl e \<Longrightarrow> e = SignedOverflow"
  by (auto simp: var_index_def bindE_def chk_int_def chk_long_def split: sum.splits if_splits)

lemma cnf_header_error: "cnf_header nn mm k = Inl e \<Longrightarrow> e = SignedOverflow"
  by (auto simp: cnf_header_def bindE_def chk_long_def split: sum.splits if_splits)

lemma cnf_header_product:
  assumes "cnf_header nn mm k = Inr x"
  shows "nn * k * (k - 1) \<le> LONG_MAX"
proof -
  obtain p1 k1 p2 where "chk_long (nn * k) = Inr p1" "chk_long (k - 1) = Inr k1"
    "chk_long (p1 * k1) = Inr p2"
    using assms by (auto simp: cnf_header_def bindE_def split: sum.splits)
  then show ?thesis by (simp add: chk_long_Inr)
qed

lemma for_int_error:
  assumes "for_int lo hi body = Inl e"
    and "\<And>i e. body i = Inl e \<Longrightarrow> e = SignedOverflow"
  shows "e = SignedOverflow"
  using assms
proof (induction lo hi body rule: for_int.induct)
  case (1 i hi body)
  show ?case
  proof (cases "INT_MAX < i \<or> \<not> i \<le> hi")
    case True
    then show ?thesis
      using "1.prems"(1) by (subst (asm) for_int.simps) (auto split: if_splits)
  next
    case False
    show ?thesis
    proof (cases "body i")
      case (Inl e')
      then have "for_int i hi body = Inl e'"
        using False by (subst for_int.simps) simp
      then show ?thesis using "1.prems" Inl by simp
    next
      case (Inr xs)
      then have "for_int i hi body = bindE (for_int (i + 1) hi body) (\<lambda>ys. Inr (xs @ ys))"
        using False by (subst for_int.simps) simp
      then have rest: "for_int (i + 1) hi body = Inl e"
        using "1.prems"(1) by (cases "for_int (i + 1) hi body") auto
      have "\<not> INT_MAX < i" "i \<le> hi" using False by simp_all
      then show ?thesis
        using rest "1.prems"(2) by (rule "1.IH")
    qed
  qed
qed

lemma for_int_overflows:
  assumes "lo \<le> INT_MAX + 1" and "INT_MAX \<le> hi"
    and "\<And>i e. body i = Inl e \<Longrightarrow> e = SignedOverflow"
  shows "for_int lo hi body = Inl SignedOverflow"
proof -
  obtain e where e: "for_int lo hi body = Inl e"
    using for_int_overflow [OF assms(1,2)] by blast
  then have "e = SignedOverflow"
    by (rule for_int_error) (rule assms(3))
  then show ?thesis using e by simp
qed

lemma coverage_overflows:
  assumes "0 < nn" "INT_MAX \<le> nn \<or> INT_MAX \<le> k"
  shows "coverage nn k = Inl SignedOverflow"
proof -
  let ?inner = "\<lambda>v. for_int 1 k (\<lambda>i. bindE (var_index v k i) (\<lambda>x. Inr [Pos x]))"
  let ?body = "\<lambda>v. bindE (?inner v) (\<lambda>c. Inr [c])"
  have lit_err: "e = SignedOverflow" if "bindE (var_index v k i) (\<lambda>x. Inr [Pos x]) = Inl e" for v i e
    using that by (cases "var_index v k i") (auto dest: var_index_error)
  have body_err: "e = SignedOverflow" if b: "?body v = Inl e" for v e
  proof (cases "?inner v")
    case (Inl e')
    then have "e' = SignedOverflow" using lit_err by (rule for_int_error)
    then show ?thesis using b Inl by simp
  next
    case (Inr c)
    then show ?thesis using b by simp
  qed
  have err: "e = SignedOverflow" if "coverage nn k = Inl e" for e
    using that body_err unfolding coverage_def by (rule for_int_error)
  have "\<exists>e. coverage nn k = Inl e"
  proof (cases "INT_MAX \<le> nn")
    case True
    then show ?thesis
      unfolding coverage_def by (intro for_int_overflow) (simp_all add: INT_MAX_def)
  next
    case False
    then have k: "INT_MAX \<le> k" using assms(2) by simp
    have "\<exists>e. ?inner 1 = Inl e"
      using k by (intro for_int_overflow) (simp_all add: INT_MAX_def)
    then obtain e where "?body 1 = Inl e" by auto
    then have "for_int 1 nn ?body = Inl e"
      using assms(1) by (subst for_int.simps) (simp add: INT_MAX_def)
    then show ?thesis by (auto simp: coverage_def)
  qed
  then show ?thesis using err by auto
qed

lemma emit_cnf_overflows:
  assumes "valid_graph g" "1 \<le> k" "\<not> no_overflow g k"
  shows "emit_cnf g k = Inl SignedOverflow"
proof (cases "cnf_header (g_n g) (g_m g) k")
  case (Inl e)
  then show ?thesis
    using cnf_header_error [OF Inl] by (simp add: emit_cnf_def)
next
  case (Inr x)
  obtain nv nc where x: "x = (nv, nc)" by (cases x)
  have "g_n g * k * (k - 1) \<le> LONG_MAX"
    using Inr by (rule cnf_header_product)
  then have "INT_MAX \<le> g_n g \<or> INT_MAX \<le> k"
    using assms(3) by (auto simp: no_overflow_def)
  moreover have "0 < g_n g" using assms(1) by (simp add: valid_graph_def)
  ultimately have "coverage (g_n g) k = Inl SignedOverflow"
    by (intro coverage_overflows)
  then show ?thesis
    by (simp add: emit_cnf_def Inr x)
qed

lemma emit_cnf_defined_iff:
  assumes "valid_graph g" "1 \<le> k"
  shows "(\<exists>out. emit_cnf g k = Inr out) \<longleftrightarrow> no_overflow g k"
proof (cases "no_overflow g k")
  case True
  then show ?thesis using emit_cnf_refines [OF assms] by simp
next
  case False
  then show ?thesis using emit_cnf_overflows [OF assms] by simp
qed

section \<open>The rounds and the search loop of the driver\<close>

lemma run_color_minisat_results:
  "run_color_minisat r = Return 0 \<or> run_color_minisat r = Return (- 1) \<or>
   run_color_minisat r = KilledBySIGPIPE"
  by (simp add: run_color_minisat_def split: option.splits)

lemma fgets_line_SAT:
  "take 3 (fst (fgets_line (Suc (Suc (Suc n))) s)) = ''SAT'' \<longleftrightarrow> take 3 s = ''SAT''"
proof (cases s)
  case Nil
  then show ?thesis by simp
next
  case c1: (Cons a s1)
  show ?thesis
  proof (cases s1)
    case Nil
    then show ?thesis by (simp add: c1)
  next
    case c2: (Cons b s2)
    show ?thesis
    proof (cases s2)
      case Nil
      then show ?thesis by (auto simp: c1 c2 split: prod.splits)
    next
      case c3: (Cons c s3)
      then show ?thesis by (auto simp: c1 c2 split: prod.splits)
    qed
  qed
qed

lemma first_line_SAT:
  assumes "fgets 32 content = Some (line, rest)"
  shows "take 3 line = ''SAT'' \<longleftrightarrow> take 3 content = ''SAT''"
proof -
  have "(31::nat) = Suc (Suc (Suc 28))" by simp
  then have "line = fst (fgets_line (Suc (Suc (Suc 28))) content)"
    using assms by (auto simp: fgets_def split: if_splits)
  then show ?thesis by (simp only: fgets_line_SAT)
qed

lemma search_loop_found:
  "search_loop env out max_k k True ks ans =
     \<lparr>status = EXIT_SUCCESS, fatal = None, tried = ks, answer = ans, tmp_exists = False\<rparr>"
  by (subst search_loop.simps) simp

lemma search_loop_advances:
  assumes "run_color_minisat (rounds env k) = Return rc" "rc \<noteq> 0" "k \<le> max_k"
  shows "search_loop env out max_k k False ks ans
     = search_loop env out max_k (k + 1) False (ks @ [k]) ans"
  using assms by (subst search_loop.simps) simp

lemma no_sigpipe_step:
  assumes "no_sigpipe env k max_k" "k \<le> max_k"
  shows "run_color_minisat (rounds env k) \<noteq> KilledBySIGPIPE \<and> no_sigpipe env (k + 1) max_k"
proof -
  have "[k..max_k] = k # [k + 1..max_k]" using assms(2) by (simp add: upto_rec1)
  then show ?thesis using assms(1) by (simp add: no_sigpipe_def)
qed

lemma search_loop_first_round_ok:
  assumes "\<not> fopen_result_fails env" "\<not> fopen_out_fails env" "no_sigpipe env k max_k"
  shows "search_loop env out max_k k False ks None =
     (case first_round_ok env k max_k of
        Some k' \<Rightarrow> \<lparr>status = EXIT_SUCCESS, fatal = None, tried = ks @ [k..k'],
                    answer = Some k', tmp_exists = False\<rparr>
      | None \<Rightarrow> \<lparr>status = EXIT_FAILURE, fatal = None, tried = ks @ [k..max_k],
                  answer = None, tmp_exists = False\<rparr>)"
  using assms(3)
proof (induction "nat (max_k + 1 - k)" arbitrary: k ks)
  case 0
  then have "max_k < k" by simp
  then show ?case
    by (subst search_loop.simps) (simp add: first_round_ok_def)
next
  case (Suc x)
  then have le: "k \<le> max_k" and x: "x = nat (max_k + 1 - (k + 1))" by auto
  have up: "[k..max_k] = k # [k + 1..max_k]" using le by (simp add: upto_rec1)
  have nk: "run_color_minisat (rounds env k) \<noteq> KilledBySIGPIPE"
    and ns: "no_sigpipe env (k + 1) max_k"
    using no_sigpipe_step [OF Suc.prems le] by simp_all
  show ?case
  proof (cases "round_ok env k")
    case True
    then show ?thesis
      using le assms(1,2)
      by (subst search_loop.simps) (simp add: first_round_ok_def up round_ok_def search_loop_found)
  next
    case False
    obtain rc where rc: "run_color_minisat (rounds env k) = Return rc" "rc \<noteq> 0"
      using False nk by (cases "run_color_minisat (rounds env k)") (auto simp: round_ok_def)
    have "search_loop env out max_k k False ks None = search_loop env out max_k (k + 1) False (ks @ [k]) None"
      using rc le by (rule search_loop_advances)
    also have "\<dots> = (case first_round_ok env (k + 1) max_k of
        Some k' \<Rightarrow> \<lparr>status = EXIT_SUCCESS, fatal = None, tried = (ks @ [k]) @ [k + 1..k'],
                    answer = Some k', tmp_exists = False\<rparr>
      | None \<Rightarrow> \<lparr>status = EXIT_FAILURE, fatal = None, tried = (ks @ [k]) @ [k + 1..max_k],
                  answer = None, tmp_exists = False\<rparr>)"
      by (rule Suc.hyps(1) [OF x ns])
    also have "\<dots> = (case first_round_ok env k max_k of
        Some k' \<Rightarrow> \<lparr>status = EXIT_SUCCESS, fatal = None, tried = ks @ [k..k'],
                    answer = Some k', tmp_exists = False\<rparr>
      | None \<Rightarrow> \<lparr>status = EXIT_FAILURE, fatal = None, tried = ks @ [k..max_k],
                  answer = None, tmp_exists = False\<rparr>)"
    proof (cases "first_round_ok env (k + 1) max_k")
      case None
      then show ?thesis using False by (simp add: first_round_ok_def up)
    next
      case (Some k')
      then have "k + 1 \<le> k'"
        by (auto simp: first_round_ok_def find_Some_iff)
      then have "[k..k'] = k # [k + 1..k']" by (simp add: upto_rec1)
      then show ?thesis using Some False by (simp add: first_round_ok_def up)
    qed
    finally show ?thesis .
  qed
qed

lemma tmp_exists_iff_abnormal:
  "tmp_exists (search_loop env out max_k k found ks ans)
     \<longleftrightarrow> fatal (search_loop env out max_k k found ks ans) \<noteq> None \<or>
         status (search_loop env out max_k k found ks ans) = KILLED_BY_SIGPIPE"
proof (induction env out max_k k found ks ans rule: search_loop.induct)
  case (1 env out max_k k found ks ans)
  show ?case
  proof (cases "\<not> found \<and> k \<le> max_k")
    case False
    then show ?thesis by (subst (1 2 3) search_loop.simps) auto
  next
    case True
    show ?thesis
    proof (cases "run_color_minisat (rounds env k)")
      case KilledBySIGPIPE
      then show ?thesis
        using True by (subst (1 2 3) search_loop.simps) auto
    next
      case (Return rc)
      show ?thesis
      proof (cases "rc = 0")
        case ok: True
        show ?thesis
        proof (cases "fopen_result_fails env \<or> (out \<and> fopen_out_fails env)")
          case True
          then show ?thesis
            using \<open>\<not> found \<and> k \<le> max_k\<close> ok Return by (subst (1 2 3) search_loop.simps) auto
        next
          case False
          then show ?thesis
            using \<open>\<not> found \<and> k \<le> max_k\<close> ok Return "1.IH"(1) [OF True Return ok]
            by (subst (1 2 3) search_loop.simps) auto
        qed
      next
        case False
        then show ?thesis
          using True Return "1.IH"(2) [OF True Return False]
          by (subst (1 2 3) search_loop.simps) auto
      qed
    qed
  qed
qed

section \<open>Reading edges and numbers\<close>


lemma digit_not_space: "isdigit c \<Longrightarrow> \<not> isspace c"
  by (auto simp: isdigit_def isspace_def)

lemma digit_not_sign: "isdigit c \<Longrightarrow> c \<noteq> CHR ''-'' \<and> c \<noteq> CHR ''+''"
  by (auto simp: isdigit_def)

lemma strtol_digits:
  assumes "ds \<noteq> []" "\<forall>c \<in> set ds. isdigit c" "r = [] \<or> \<not> isdigit (hd r)"
  shows "strtol (ds @ r) = (min LONG_MAX (digits_value 0 ds), r)"
proof -
  obtain d ds' where ds: "ds = d # ds'" using assms(1) by (cases ds) auto
  have d: "isdigit d" using assms(2) ds by simp
  have sp: "dropWhile isspace (ds @ r) = ds @ r"
    using digit_not_space [OF d] by (simp add: ds)
  have sg: "take_sign (ds @ r) = (False, ds @ r)"
    using digit_not_sign [OF d] by (simp add: take_sign_def ds)
  have r: "takeWhile isdigit r = []" "dropWhile isdigit r = r"
    using assms(3) by (cases r; simp)+
  have tw: "takeWhile isdigit (ds @ r) = ds"
    using assms(2) r by (simp add: takeWhile_append2)
  have dw: "dropWhile isdigit (ds @ r) = r"
    using assms(2) r by (simp add: dropWhile_append2)
  show ?thesis
    using assms(1) by (simp add: strtol_def sp sg tw dw)
qed

lemma edgeless3_header: "parse_header edgeless3_col = Some 3"
  by code_simp

lemma triangle_header: "parse_header triangle_col = Some 3"
  by code_simp

lemma to_int_id: "0 \<le> x \<Longrightarrow> x \<le> INT_MAX \<Longrightarrow> to_int x = x"
  by (simp add: to_int_def INT_MAX_def)

lemma spec_formula_literals:
  assumes ends: "\<forall>(u, w) \<in> set es. 1 \<le> u \<and> u \<le> nn \<and> 1 \<le> w \<and> w \<le> nn"
    and c: "c \<in> set (spec_formula nn es k)" and l: "l \<in> set c"
  shows "\<exists>v i. 1 \<le> v \<and> v \<le> nn \<and> 1 \<le> i \<and> i \<le> k \<and> lit_var l = (v - 1) * k + i"
proof -
  consider (cov) "c \<in> set (spec_coverage nn k)"
    | (exc) "c \<in> set (spec_exclusivity nn k)"
    | (adj) "c \<in> set (spec_adjacency es k)"
    using c by (auto simp: spec_formula_def)
  then show ?thesis
  proof cases
    case cov
    then obtain v where v: "1 \<le> v" "v \<le> nn" "c = map Pos [(v - 1) * k + 1..(v - 1) * k + k]"
      by (auto simp: in_spec_coverage)
    then obtain x where x: "l = Pos x" "(v - 1) * k + 1 \<le> x" "x \<le> (v - 1) * k + k"
      using l by auto
    have "1 \<le> x - (v - 1) * k \<and> x - (v - 1) * k \<le> k \<and> lit_var l = (v - 1) * k + (x - (v - 1) * k)"
      using x by simp
    then show ?thesis using v(1,2) by blast
  next
    case exc
    then obtain v i j where x: "1 \<le> v" "v \<le> nn" "1 \<le> i" "i < j" "j \<le> k"
      "c = [Neg ((v - 1) * k + i), Neg ((v - 1) * k + j)]"
      by (auto simp: in_spec_exclusivity)
    then consider "l = Neg ((v - 1) * k + i)" | "l = Neg ((v - 1) * k + j)" using l by auto
    then show ?thesis
    proof cases
      case 1
      have "1 \<le> i \<and> i \<le> k \<and> lit_var l = (v - 1) * k + i" using x 1 by simp
      then show ?thesis using x(1,2) by blast
    next
      case 2
      have "1 \<le> j \<and> j \<le> k \<and> lit_var l = (v - 1) * k + j" using x 2 by simp
      then show ?thesis using x(1,2) by blast
    qed
  next
    case adj
    then obtain u w i where x: "(u, w) \<in> set es" "1 \<le> i" "i \<le> k"
      "c = [Neg ((u - 1) * k + i), Neg ((w - 1) * k + i)]"
      by (auto simp: in_spec_adjacency)
    have uw: "1 \<le> u" "u \<le> nn" "1 \<le> w" "w \<le> nn" using ends x(1) by auto
    consider "l = Neg ((u - 1) * k + i)" | "l = Neg ((w - 1) * k + i)" using l x(4) by auto
    then show ?thesis
    proof cases
      case 1
      have "1 \<le> i \<and> i \<le> k \<and> lit_var l = (u - 1) * k + i" using x 1 by simp
      then show ?thesis using uw by blast
    next
      case 2
      have "1 \<le> i \<and> i \<le> k \<and> lit_var l = (w - 1) * k + i" using x 2 by simp
      then show ?thesis using uw by blast
    qed
  qed
qed

lemma to_int_range: "INT_MIN \<le> to_int x \<and> to_int x \<le> INT_MAX"
  by (simp add: to_int_def INT_MIN_def INT_MAX_def)

lemma scan_d_range: "scan_d s = Some (a, r) \<Longrightarrow> INT_MIN \<le> a \<and> a \<le> INT_MAX"
  using to_int_range
  by (auto simp: scan_d_def Let_def split: prod.splits if_splits)

lemma sscanf_p_edge_range:
  "sscanf_p_edge s = Some (a, b) \<Longrightarrow> a \<le> INT_MAX \<and> b \<le> INT_MAX"
  by (auto simp: sscanf_p_edge_def split: option.splits dest: scan_d_range)

lemma find_problem_line_range:
  "find_problem_line fp = Inr (nn, mm, rest) \<Longrightarrow> nn \<le> INT_MAX \<and> mm \<le> INT_MAX"
proof (induction fp rule: find_problem_line.induct)
  case (1 fp)
  show ?case
  proof (cases "fgets 256 fp")
    case None
    then show ?thesis
      using "1.prems" by (subst (asm) find_problem_line.simps) (simp add: INT_MAX_def)
  next
    case (Some x)
    obtain line fp' where x: "x = (line, fp')" by (cases x)
    show ?thesis
    proof (cases "starts_with CHR ''p'' line")
      case True
      then show ?thesis
        using "1.prems" Some x
        by (subst (asm) find_problem_line.simps)
           (auto split: option.splits dest: sscanf_p_edge_range)
    next
      case False
      then have "find_problem_line fp' = Inr (nn, mm, rest)"
        using "1.prems" Some x by (subst (asm) find_problem_line.simps) simp
      then show ?thesis
        using "1.IH" [OF Some x [symmetric] False] by simp
    qed
  qed
qed

lemma read_edges_count:
  assumes "read_edges mm es fp = Inr es'" "int (length es) \<le> mm"
  shows "int (length es') \<le> mm"
  using assms
proof (induction mm es fp rule: read_edges.induct)
  case (1 mm es fp)
  show ?case
  proof (cases "fgets 256 fp")
    case None
    then show ?thesis
      using "1.prems" by (subst (asm) read_edges.simps) simp
  next
    case (Some x)
    obtain line fp' where x: "x = (line, fp')" by (cases x)
    have c: "starts_with CHR ''e'' line \<and> int (length es) < mm"
      using "1.prems"(1) Some x by (subst (asm) read_edges.simps) (auto split: if_splits)
    show ?thesis
    proof (cases "sscanf_e line")
      case None
      then have "read_edges mm es fp' = Inr es'"
        using "1.prems"(1) Some x c by (subst (asm) read_edges.simps) simp
      then show ?thesis
        using "1.IH"(1) [OF Some x [symmetric] c None] "1.prems"(2) by simp
    next
      case (Some uv)
      obtain u v where uv: "uv = (u, v)" by (cases uv)
      have "read_edges mm (es @ [(u, v)]) fp' = Inr es'"
        using "1.prems"(1) \<open>fgets 256 fp = Some x\<close> x c Some uv
        by (subst (asm) read_edges.simps) simp
      then show ?thesis
        using "1.IH"(2) [OF \<open>fgets 256 fp = Some x\<close> x [symmetric] c Some uv [symmetric]] c
        by simp
    qed
  qed
qed

lemma read_graph_Inr:
  assumes "read_graph malloc_ok file' = Inr (g, warned)"
  shows "\<exists>fp nn mm rest es. file' = Some fp \<and> find_problem_line fp = Inr (nn, mm, rest) \<and>
     0 < nn \<and> 0 \<le> mm \<and> malloc_ok 16 \<and> malloc_ok (nat mm * 8) \<and>
     read_edges mm [] rest = Inr es \<and>
     g = \<lparr>g_n = nn, g_m = int (length es), g_edges = es\<rparr> \<and> (warned \<longleftrightarrow> int (length es) \<noteq> mm)"
proof -
  obtain fp where fp: "file' = Some fp"
    using assms by (cases file') (simp_all add: read_graph_def)
  obtain nn mm rest where p: "find_problem_line fp = Inr (nn, mm, rest)"
    using assms fp by (cases "find_problem_line fp") (simp_all add: read_graph_def, force)
  have nm: "0 < nn" "0 \<le> mm" "malloc_ok 16" "malloc_ok (nat mm * 8)"
    using assms by (simp_all add: read_graph_def fp p split: if_splits)
  then have r: "bindE (read_edges mm [] rest) (\<lambda>es.
                let count = int (length es) in
                if count \<noteq> mm then Inr (\<lparr>g_n = nn, g_m = count, g_edges = es\<rparr>, True)
                else Inr (\<lparr>g_n = nn, g_m = mm, g_edges = es\<rparr>, False)) = Inr (g, warned)"
    using assms by (simp add: read_graph_def fp p)
  then obtain es where es: "read_edges mm [] rest = Inr es"
    by (cases "read_edges mm [] rest") simp_all
  have "g = \<lparr>g_n = nn, g_m = int (length es), g_edges = es\<rparr> \<and> (warned \<longleftrightarrow> int (length es) \<noteq> mm)"
    using r by (simp add: es Let_def split: if_splits)
  then have "file' = Some fp \<and> find_problem_line fp = Inr (nn, mm, rest) \<and>
     0 < nn \<and> 0 \<le> mm \<and> malloc_ok 16 \<and> malloc_ok (nat mm * 8) \<and>
     read_edges mm [] rest = Inr es \<and>
     g = \<lparr>g_n = nn, g_m = int (length es), g_edges = es\<rparr> \<and> (warned \<longleftrightarrow> int (length es) \<noteq> mm)"
    using fp p nm es by simp
  then show ?thesis by (intro exI)
qed

lemma read_graph_invariant:
  assumes "read_graph malloc_ok file' = Inr (g, warned)"
  shows "0 < g_n g \<and> g_n g \<le> INT_MAX \<and> g_m g = int (length (g_edges g)) \<and> g_m g \<le> INT_MAX"
proof -
  from read_graph_Inr [OF assms]
  obtain fp nn mm rest es where x: "find_problem_line fp = Inr (nn, mm, rest)"
    "0 < nn" "0 \<le> mm" "read_edges mm [] rest = Inr es"
    "g = \<lparr>g_n = nn, g_m = int (length es), g_edges = es\<rparr>"
    by (elim exE conjE)
  have "int (length es) \<le> mm"
    using x(4) by (rule read_edges_count) (simp add: x(3))
  then show ?thesis
    using x find_problem_line_range [OF x(1)] by simp
qed

section \<open>Claims about the encoder\<close>

text \<open>
  C1, as stated for every graph and every \<open>k \<ge> 1\<close>, fails where the encoder's
  arithmetic leaves the range of its C types, which is undefined behaviour: no formula
  is determined for one vertex and \<open>k = INT_MAX\<close> (the counter \<open>i\<close> of the coverage
  loop is incremented past \<open>INT_MAX\<close>), for \<open>INT_MAX\<close> vertices and \<open>k = 1\<close> (the
  counter \<open>v\<close>), and for three vertices and \<open>k = INT_MAX - 1\<close> (the product
  \<open>n * k * (k - 1)\<close> of the clause count exceeds 64 bits).
\<close>

theorem encoder_signed_overflow:
  "emit_cnf single_vertex 2147483647 = Inl SignedOverflow \<and>
   emit_cnf edgeless_INT_MAX 1 = Inl SignedOverflow \<and>
   emit_cnf edgeless3 2147483646 = Inl SignedOverflow"
proof -
  have v: "valid_graph single_vertex" "valid_graph edgeless_INT_MAX" "valid_graph edgeless3"
    by (simp_all add: valid_graph_def single_vertex_def edgeless_INT_MAX_def edgeless3_def INT_MAX_def)
  have a: "\<not> no_overflow single_vertex 2147483647"
    by (simp add: no_overflow_def INT_MAX_def)
  have b: "\<not> no_overflow edgeless_INT_MAX 1"
    by (simp add: no_overflow_def edgeless_INT_MAX_def INT_MAX_def)
  have c: "\<not> no_overflow edgeless3 2147483646"
    by (simp add: no_overflow_def edgeless3_def INT_MAX_def LONG_MAX_def)
  show ?thesis
    using emit_cnf_overflows [OF v(1) _ a] emit_cnf_overflows [OF v(2) _ b]
      emit_cnf_overflows [OF v(3) _ c]
    by simp
qed

text \<open>
  C1, amended. For a graph with \<open>1 \<le> n < INT_MAX\<close>, an edge list of \<open>m \<le> INT_MAX\<close>
  edges with every endpoint in \<open>[1, n]\<close>, and \<open>1 \<le> k < INT_MAX\<close> with
  \<open>n * k * (k - 1) \<le> LONG_MAX\<close>, the encoder emits a formula, and the formula is
  satisfiable if and only if the graph has a proper colouring with \<open>k\<close> colours.
\<close>

theorem emit_cnf_sat_iff_colorable:
  assumes "valid_graph g" "1 \<le> k" "no_overflow g k"
  shows "\<exists>out. emit_cnf g k = Inr out \<and> (satisfiable (clauses out) \<longleftrightarrow> k_colorable g k)"
proof -
  have ends: "\<forall>(u, w) \<in> set (g_edges g). 1 \<le> u \<and> u \<le> g_n g \<and> 1 \<le> w \<and> w \<le> g_n g"
    using assms(1) by (simp add: valid_graph_def)
  have "satisfiable (spec_formula (g_n g) (g_edges g) k) \<longleftrightarrow> k_colorable g k"
    using sat_imp_colorable [OF _ ends] colorable_imp_sat by blast
  then show ?thesis
    by (simp add: emit_cnf_refines [OF assms])
qed

theorem emit_cnf_sat_iff_colorable_witness:
  "valid_graph triangle \<and> no_overflow triangle 3 \<and> k_colorable triangle 3 \<and>
   (\<exists>out. emit_cnf triangle 3 = Inr out \<and> satisfiable (clauses out))"
proof -
  have v: "valid_graph triangle"
    by (simp add: valid_graph_def triangle_def INT_MAX_def)
  have b: "no_overflow triangle 3"
    by (simp add: no_overflow_def triangle_def INT_MAX_def LONG_MAX_def)
  have "proper_coloring triangle 3 (\<lambda>v. v)"
    by (simp add: proper_coloring_def triangle_def)
  then have c: "k_colorable triangle 3"
    by (auto simp: k_colorable_def)
  show ?thesis
    using v b c emit_cnf_sat_iff_colorable [OF v _ b] by simp
qed

text \<open>
  C2. For the input \<open>p edge 3 0\<close> (three vertices, no edge) and \<open>k = 2147483646\<close>
  the clause count of the header is not determined: the product \<open>n * k * (k - 1)\<close> is formed in 64 bits before the
  division by 2 and exceeds them, although the three loops are defined, emit the
  families as the specification words them, and the number of clauses,
  6917529011534954508, fits 64 bits.
\<close>

theorem header_count_overflows:
  "color2sat_main always_allocates [''color2sat'', ''-'', ''2147483646''] (Some edgeless3_col)
     = Inl SignedOverflow \<and>
   cnf_header 3 0 2147483646 = Inl SignedOverflow \<and>
   emit_cnf edgeless3 2147483646 = Inl SignedOverflow \<and>
   coverage 3 2147483646 = Inr (spec_coverage 3 2147483646) \<and>
   exclusivity 3 2147483646 = Inr (spec_exclusivity 3 2147483646) \<and>
   adjacency [] 0 2147483646 = Inr [] \<and>
   int (length (spec_coverage 3 2147483646 @ spec_exclusivity 3 2147483646))
     = 6917529011534954508"
proof -
  have h: "cnf_header 3 0 2147483646 = Inl SignedOverflow"
    by (simp add: cnf_header_def chk_long_def LONG_MIN_def LONG_MAX_def)
  have e: "emit_cnf edgeless3 2147483646 = Inl SignedOverflow"
    by (simp add: emit_cnf_def edgeless3_def h)
  have k: "encoder_parse_k ''2147483646'' = Inr 2147483646"
    by code_simp
  have r: "read_graph always_allocates (Some edgeless3_col) = Inr (edgeless3, False)"
    by code_simp
  have m: "color2sat_main always_allocates [''color2sat'', ''-'', ''2147483646''] (Some edgeless3_col)
     = Inl SignedOverflow"
    by (simp add: color2sat_main_def k r e)
  have c1: "coverage 3 2147483646 = Inr (spec_coverage 3 2147483646)"
    by (rule coverage_refines) (simp_all add: INT_MAX_def)
  have c2: "exclusivity 3 2147483646 = Inr (spec_exclusivity 3 2147483646)"
    by (rule exclusivity_refines) (simp_all add: INT_MAX_def)
  have "adjacency [] 0 2147483646 = Inr (spec_adjacency [] 2147483646)"
    by (rule adjacency_refines) (simp_all add: INT_MAX_def)
  then have c3: "adjacency [] 0 2147483646 = Inr []"
    by (simp add: spec_adjacency_def)
  have "int (length (spec_coverage 3 2147483646 @ spec_exclusivity 3 2147483646))
      = int (length (spec_coverage 3 2147483646)) + int (length (spec_exclusivity 3 2147483646))"
    by simp
  also have "\<dots> = 3 + 3 * 2147483646 * (2147483646 - 1) div 2"
    by (simp add: length_spec_coverage length_spec_exclusivity)
  finally have n: "int (length (spec_coverage 3 2147483646 @ spec_exclusivity 3 2147483646))
      = 6917529011534954508"
    by simp
  show ?thesis
    using m h e c1 c2 c3 n by (intro conjI)
qed

text \<open>
  C6. The output for the graph with 65536 vertices and no edge and \<open>k = 32768\<close>: the
  clause count 35183298412544 of the header is exact, beyond 32 bits; the variable
  count, declared \<open>int\<close>, is \<open>- 2147483648\<close> and not \<open>n * k = 2147483648\<close>.
\<close>

theorem header_num_vars_wraps:
  "emit_cnf edgeless65536 32768 =
     Inr \<lparr>num_vars = - 2147483648, num_clauses = 35183298412544,
          clauses = spec_formula 65536 [] 32768\<rparr>"
proof -
  have v: "valid_graph edgeless65536"
    by (simp add: valid_graph_def edgeless65536_def INT_MAX_def)
  have b: "no_overflow edgeless65536 32768"
    by (simp add: no_overflow_def edgeless65536_def INT_MAX_def LONG_MAX_def)
  have "emit_cnf edgeless65536 32768 =
      Inr \<lparr>num_vars = to_int (65536 * 32768), num_clauses = 65536 + 65536 * 32768 * (32768 - 1) div 2 + 0 * 32768,
           clauses = spec_formula 65536 [] 32768\<rparr>"
    using emit_cnf_refines [OF v _ b] by (simp add: edgeless65536_def)
  then show ?thesis
    by (simp add: to_int_def)
qed

text \<open>
  C7, as stated, fails for an edge whose endpoint lies outside \<open>[1, n]\<close>, which the
  reader records as it stands: for the input \<open>p edge 2 1\<close>, \<open>e 1 5\<close> and \<open>k = 1\<close>
  the encoder declares 2 variables and emits the literal \<open>-5\<close>.
\<close>

theorem stray_endpoint_literal:
  "color2sat_main always_allocates [''color2sat'', ''-'', ''1''] (Some stray_endpoint_col) =
     Inr (\<lparr>num_vars = 2, num_clauses = 3, clauses = [[Pos 1], [Pos 2], [Neg 1, Neg 5]]\<rparr>, False)"
  by code_simp

text \<open>
  C7, amended. For every \<open>k \<ge> 1\<close>: the map \<open>(v, c) \<mapsto> (v-1)*k + c\<close> is injective
  on pairs with \<open>c\<close> in \<open>[1, k]\<close>; for every \<open>n\<close> its value on \<open>[1,n] \<times> [1,k]\<close> lies
  in \<open>[1, n*k]\<close>; the program's index computation is defined and equal to it for
  \<open>v\<close> in \<open>[1, INT_MAX]\<close> and \<open>c\<close> in \<open>[1, k]\<close>, \<open>k \<le> INT_MAX\<close>; and for a graph
  with \<open>1 \<le> n < INT_MAX\<close>, \<open>m \<le> INT_MAX\<close> edges with every endpoint in \<open>[1, n]\<close>,
  \<open>k < INT_MAX\<close> and \<open>n * k \<le> INT_MAX\<close>, the encoder emits a formula, declares
  \<open>n * k\<close> variables, and every literal of every emitted clause names a variable
  between 1 and the declared variable count.
\<close>

theorem literals_within_declared_count:
  assumes "1 \<le> k"
  shows "(\<forall>v c v' c'. 1 \<le> c \<and> c \<le> k \<and> 1 \<le> c' \<and> c' \<le> k \<and>
            var_number v k c = var_number v' k c' \<longrightarrow> v = v' \<and> c = c') \<and>
         (\<forall>nn v c. 1 \<le> v \<and> v \<le> nn \<and> 1 \<le> c \<and> c \<le> k \<longrightarrow>
            1 \<le> var_number v k c \<and> var_number v k c \<le> nn * k) \<and>
         (\<forall>v c. 1 \<le> v \<and> v \<le> INT_MAX \<and> 1 \<le> c \<and> c \<le> k \<and> k \<le> INT_MAX \<longrightarrow>
            var_index v k c = Inr (var_number v k c)) \<and>
         (\<forall>g. valid_graph g \<and> g_n g < INT_MAX \<and> k < INT_MAX \<and> g_n g * k \<le> INT_MAX \<longrightarrow>
            (\<exists>out. emit_cnf g k = Inr out \<and> num_vars out = g_n g * k \<and>
               (\<forall>c \<in> set (clauses out). \<forall>l \<in> set c.
                  1 \<le> lit_var l \<and> lit_var l \<le> num_vars out)))"
proof -
  have inj: "v = v' \<and> c = c'"
    if "1 \<le> c" "c \<le> k" "1 \<le> c'" "c' \<le> k" "var_number v k c = var_number v' k c'"
    for v c v' c'
    using that by (simp only: var_number_def) (rule index_inj [of c k c' v v'])
  have rng: "1 \<le> var_number v k c \<and> var_number v k c \<le> nn * k"
    if "1 \<le> v" "v \<le> nn" "1 \<le> c" "c \<le> k" for nn v c
    using index_range [OF that] by (simp add: var_number_def)
  have vi: "var_index v k c = Inr (var_number v k c)"
    if "1 \<le> v" "v \<le> INT_MAX" "1 \<le> c" "c \<le> k" "k \<le> INT_MAX" for v c
    unfolding var_number_def using that assms by (intro var_index_ok) simp_all
  have out: "\<exists>out. emit_cnf g k = Inr out \<and> num_vars out = g_n g * k \<and>
               (\<forall>c \<in> set (clauses out). \<forall>l \<in> set c.
                  1 \<le> lit_var l \<and> lit_var l \<le> num_vars out)"
    if v: "valid_graph g" and b: "g_n g < INT_MAX" "k < INT_MAX" "g_n g * k \<le> INT_MAX" for g
  proof -
    have g: "0 < g_n g"
      and ends: "\<forall>(u, w) \<in> set (g_edges g). 1 \<le> u \<and> u \<le> g_n g \<and> 1 \<le> w \<and> w \<le> g_n g"
      using v by (simp_all add: valid_graph_def)
    have "g_n g * k * (k - 1) \<le> INT_MAX * INT_MAX"
      using b assms g by (intro mult_mono) (simp_all add: INT_MAX_def)
    then have no: "no_overflow g k"
      using b by (simp add: no_overflow_def INT_MAX_def LONG_MAX_def)
    have nv: "to_int (g_n g * k) = g_n g * k"
      using g assms b by (intro to_int_id) simp_all
    have lits: "1 \<le> lit_var l \<and> lit_var l \<le> g_n g * k"
      if cl: "c \<in> set (spec_formula (g_n g) (g_edges g) k)" "l \<in> set c" for c l
    proof -
      obtain v i where "1 \<le> v" "v \<le> g_n g" "1 \<le> i" "i \<le> k" "lit_var l = (v - 1) * k + i"
        using spec_formula_literals [OF ends cl] by blast
      then show ?thesis using index_range [of v "g_n g" i k] by simp
    qed
    show ?thesis
      using lits by (simp add: emit_cnf_refines [OF v assms no] nv)
  qed
  have A: "\<forall>v c v' c'. 1 \<le> c \<and> c \<le> k \<and> 1 \<le> c' \<and> c' \<le> k \<and>
            var_number v k c = var_number v' k c' \<longrightarrow> v = v' \<and> c = c'"
    using inj by blast
  have B: "\<forall>nn v c. 1 \<le> v \<and> v \<le> nn \<and> 1 \<le> c \<and> c \<le> k \<longrightarrow>
            1 \<le> var_number v k c \<and> var_number v k c \<le> nn * k"
    using rng by blast
  have C: "\<forall>v c. 1 \<le> v \<and> v \<le> INT_MAX \<and> 1 \<le> c \<and> c \<le> k \<and> k \<le> INT_MAX \<longrightarrow>
            var_index v k c = Inr (var_number v k c)"
    using vi by blast
  have D: "\<forall>g. valid_graph g \<and> g_n g < INT_MAX \<and> k < INT_MAX \<and> g_n g * k \<le> INT_MAX \<longrightarrow>
            (\<exists>out. emit_cnf g k = Inr out \<and> num_vars out = g_n g * k \<and>
               (\<forall>c \<in> set (clauses out). \<forall>l \<in> set c.
                  1 \<le> lit_var l \<and> lit_var l \<le> num_vars out))"
    using out by blast
  show ?thesis
    by (rule conjI [OF A conjI [OF B conjI [OF C D]]])
qed

theorem literals_within_declared_count_witness:
  "valid_graph triangle \<and> g_n triangle * 3 \<le> INT_MAX \<and>
   var_number 2 3 1 = 4 \<and> var_index 2 3 1 = Inr 4 \<and> var_index 3 3 3 = Inr 9 \<and>
   (\<exists>out. emit_cnf triangle 3 = Inr out \<and> num_vars out = 9 \<and>
      (\<forall>c \<in> set (clauses out). \<forall>l \<in> set c. 1 \<le> lit_var l \<and> lit_var l \<le> 9))"
proof -
  have k: "(1::int) \<le> 3" by simp
  note t = literals_within_declared_count [OF k]
  note C = t [THEN conjunct2, THEN conjunct2, THEN conjunct1, rule_format]
  note D = t [THEN conjunct2, THEN conjunct2, THEN conjunct2, rule_format]
  have v: "valid_graph triangle"
    by (simp add: valid_graph_def triangle_def INT_MAX_def)
  have n: "g_n triangle < INT_MAX" "3 < INT_MAX" "g_n triangle * 3 \<le> INT_MAX"
    by (simp_all add: triangle_def INT_MAX_def)
  have n3: "g_n triangle = 3"
    by (simp add: triangle_def)
  have x: "var_number 2 3 1 = 4" "var_number 3 3 3 = 9"
    by (simp_all add: var_number_def)
  have "var_index 2 3 1 = Inr (var_number 2 3 1)"
    by (rule C) (simp add: INT_MAX_def)
  then have a: "var_index 2 3 1 = Inr 4"
    by (simp only: x)
  have "var_index 3 3 3 = Inr (var_number 3 3 3)"
    by (rule C) (simp add: INT_MAX_def)
  then have b: "var_index 3 3 3 = Inr 9"
    by (simp only: x)
  have "\<exists>out. emit_cnf triangle 3 = Inr out \<and> num_vars out = g_n triangle * 3 \<and>
      (\<forall>c \<in> set (clauses out). \<forall>l \<in> set c. 1 \<le> lit_var l \<and> lit_var l \<le> num_vars out)"
    by (rule D) (simp add: v n)
  then obtain out where o: "emit_cnf triangle 3 = Inr out" "num_vars out = 9"
    "\<forall>c \<in> set (clauses out). \<forall>l \<in> set c. 1 \<le> lit_var l \<and> lit_var l \<le> num_vars out"
    unfolding n3 by (elim exE conjE) simp
  have c: "\<exists>out. emit_cnf triangle 3 = Inr out \<and> num_vars out = 9 \<and>
      (\<forall>c \<in> set (clauses out). \<forall>l \<in> set c. 1 \<le> lit_var l \<and> lit_var l \<le> 9)"
    using o by (intro exI [of _ out]) simp
  show ?thesis
    using v n(3) x(1) a b c by (intro conjI)
qed

section \<open>Claims about the reader and the argument \<open>k\<close>\<close>

text \<open>
  C5. The input \<open>p edge 3 2\<close>, \<open>e 1\<close>: the second line starts with \<open>e\<close> and does not
  scan as an edge. The reader does not end with a format error; it passes the line over
  and returns the graph with no edge and the warning.
\<close>

theorem broken_edge_line_skipped:
  "read_graph always_allocates (Some broken_edge_col) =
     Inr (\<lparr>g_n = 3, g_m = 0, g_edges = []\<rparr>, True)"
  by code_simp




text \<open>
  C10. The driver looks at the value that \<open>strtol\<close> returns for the argument of
  \<open>-k\<close> and at nothing else: with a value that is not positive it ends with the error
  before anything is read; with a positive value it runs the search from that value,
  whatever follows the number. The encoder ends with the error for every argument that
  \<open>strtol\<close> does not consume to its end. So for decimal digits with a positive value
  followed by a character that is not a digit (and anything after it), the driver
  searches from the value of the digits (clamped to \<open>long\<close>) and the encoder ends with
  the error.
\<close>

theorem k_argument_trailing_characters:
  assumes "ds \<noteq> []" "\<forall>c \<in> set ds. isdigit c" "0 < digits_value 0 ds"
    and "r \<noteq> []" "\<not> isdigit (hd r)"
  shows "driver_main env (Some (ds @ r)) outfile graph
           = search_from env outfile graph (min LONG_MAX (digits_value 0 ds)) \<and>
         color2sat_main malloc_ok [prog, graph_file, ds @ r] file' = Inl InvalidK \<and>
         (\<forall>a. 0 < fst (strtol a) \<longrightarrow>
            driver_main env (Some a) outfile graph = search_from env outfile graph (fst (strtol a))) \<and>
         (\<forall>a. fst (strtol a) \<le> 0 \<longrightarrow>
            driver_main env (Some a) outfile graph = fatal_before_search InvalidK) \<and>
         (\<forall>a. snd (strtol a) \<noteq> [] \<longrightarrow>
            color2sat_main malloc_ok [prog, graph_file, a] file' = Inl InvalidK)"
proof -
  have s: "strtol (ds @ r) = (min LONG_MAX (digits_value 0 ds), r)"
    using assms by (intro strtol_digits) simp_all
  have pos: "0 < min LONG_MAX (digits_value 0 ds)"
    using assms(3) by (simp add: LONG_MAX_def min_def)
  have acc: "driver_main env (Some a) outfile graph = search_from env outfile graph (fst (strtol a))"
    if "0 < fst (strtol a)" for a
    using that
    by (cases "strtol a")
      (simp add: driver_main_def driver_parse_k_def search_from_def fatal_before_search_def
        split: option.split)
  have rej: "driver_main env (Some a) outfile graph = fatal_before_search InvalidK"
    if "fst (strtol a) \<le> 0" for a
    using that
    by (cases "strtol a") (simp add: driver_main_def driver_parse_k_def fatal_before_search_def)
  have enc: "color2sat_main malloc_ok [prog, graph_file, a] file' = Inl InvalidK"
    if "snd (strtol a) \<noteq> []" for a
    using that
    by (cases "strtol a") (simp add: color2sat_main_def encoder_parse_k_def)
  have A: "driver_main env (Some (ds @ r)) outfile graph
           = search_from env outfile graph (min LONG_MAX (digits_value 0 ds))"
    using acc [of "ds @ r"] pos by (simp add: s)
  have B: "color2sat_main malloc_ok [prog, graph_file, ds @ r] file' = Inl InvalidK"
    using enc [of "ds @ r"] assms(4) by (simp add: s)
  have C: "\<forall>a. 0 < fst (strtol a) \<longrightarrow>
            driver_main env (Some a) outfile graph = search_from env outfile graph (fst (strtol a))"
    using acc by blast
  have D: "\<forall>a. fst (strtol a) \<le> 0 \<longrightarrow>
            driver_main env (Some a) outfile graph = fatal_before_search InvalidK"
    using rej by blast
  have E: "\<forall>a. snd (strtol a) \<noteq> [] \<longrightarrow>
            color2sat_main malloc_ok [prog, graph_file, a] file' = Inl InvalidK"
    using enc by blast
  show ?thesis
    by (rule conjI [OF A conjI [OF B conjI [OF C conjI [OF D E]]]])
qed

theorem k_argument_trailing_characters_witness:
  "isdigit CHR ''5'' \<and> \<not> isdigit CHR ''x'' \<and> digits_value 0 ''5'' = 5 \<and>
   driver_main always_sat_env (Some ''5x'') None (Some edgeless6_col)
     = \<lparr>status = EXIT_SUCCESS, fatal = None, tried = [5], answer = Some 5, tmp_exists = False\<rparr> \<and>
   color2sat_main always_allocates [''color2sat'', ''-'', ''5x''] (Some edgeless6_col) = Inl InvalidK"
proof -
  have d: "isdigit CHR ''5''" "\<not> isdigit CHR ''x''" by (simp_all add: isdigit_def)
  have v: "digits_value 0 ''5'' = 5" by (simp add: digit_of_def)
  have m: "min LONG_MAX (digits_value 0 ''5'') = 5" by (simp add: digit_of_def LONG_MAX_def)
  have h: "\<forall>c \<in> set ''5''. isdigit c" by (simp add: isdigit_def)
  have e: "''5'' \<noteq> []" "0 < digits_value 0 ''5''" "''x'' \<noteq> []" "\<not> isdigit (hd ''x'')"
    by (simp_all add: digit_of_def isdigit_def)
  have x: "''5'' @ ''x'' = ''5x''" by simp
  have s: "search_from always_sat_env None (Some edgeless6_col) 5
     = \<lparr>status = EXIT_SUCCESS, fatal = None, tried = [5], answer = Some 5, tmp_exists = False\<rparr>"
    by code_simp
  note t = k_argument_trailing_characters [OF e(1) h e(2) e(3) e(4)]
  have "driver_main always_sat_env (Some (''5'' @ ''x'')) None (Some edgeless6_col)
     = search_from always_sat_env None (Some edgeless6_col) (min LONG_MAX (digits_value 0 ''5''))"
    by (rule t [THEN conjunct1])
  then have A: "driver_main always_sat_env (Some ''5x'') None (Some edgeless6_col)
     = \<lparr>status = EXIT_SUCCESS, fatal = None, tried = [5], answer = Some 5, tmp_exists = False\<rparr>"
    by (simp only: m s x)
  have "color2sat_main always_allocates [''color2sat'', ''-'', ''5'' @ ''x''] (Some edgeless6_col)
     = Inl InvalidK"
    by (rule t [THEN conjunct2, THEN conjunct1])
  then have B: "color2sat_main always_allocates [''color2sat'', ''-'', ''5x''] (Some edgeless6_col)
     = Inl InvalidK"
    by (simp only: x)
  show ?thesis
    by (rule conjI [OF d(1) conjI [OF d(2) conjI [OF v conjI [OF A B]]]])
qed

section \<open>Claims about the driver\<close>

text \<open>
  C3, as stated, fails in its example: with \<open>-k 5\<close> on a graph of three vertices, where
  every round from \<open>k = 2\<close> on would succeed, the loop condition \<open>k <= max_k\<close> is false
  at once; no round is run and the driver exits with failure.
\<close>

theorem override_above_vertex_count:
  "round_ok always_sat_env 2 \<and>
   driver_main always_sat_env (Some ''5'') None (Some edgeless3_col) =
     \<lparr>status = EXIT_FAILURE, fatal = None, tried = [], answer = None, tmp_exists = False\<rparr>"
  by code_simp

text \<open>
  C3, amended. Let the input be loaded and hold a problem line with vertex count \<open>n\<close>,
  let \<open>mkstemp\<close> succeed and \<open>main\<close>'s own \<open>fopen\<close> of the result file and of the
  output file succeed, let the start be 2, or the value \<open>strtol\<close> gives for the
  argument of \<open>-k\<close>, which is positive, and let no round for a \<open>k\<close> from the start to
  \<open>n\<close> have the driver killed by SIGPIPE. Then the driver runs one round for each
  \<open>k\<close> upward from the start while \<open>k \<le> n\<close> and stops at the first \<open>k\<close> whose
  round returns 0, which it reports, exiting with success; when no round from the start
  to \<open>n\<close> returns 0 (as when the start is above \<open>n\<close>) it has run them all and exits
  with failure. In both cases the temporary file is removed.
\<close>

theorem driver_stops_at_first_round_ok:
  assumes "parse_header buf = Some max_k" "\<not> mkstemp_fails env"
    and "\<not> fopen_result_fails env" "\<not> fopen_out_fails env"
    and "k_start = (case k_arg of None \<Rightarrow> 2 | Some a \<Rightarrow> fst (strtol a))" "0 < k_start"
    and "no_sigpipe env k_start max_k"
  shows "driver_main env k_arg outfile (Some buf) =
     (case first_round_ok env k_start max_k of
        Some k \<Rightarrow> \<lparr>status = EXIT_SUCCESS, fatal = None, tried = [k_start..k],
                   answer = Some k, tmp_exists = False\<rparr>
      | None \<Rightarrow> \<lparr>status = EXIT_FAILURE, fatal = None, tried = [k_start..max_k],
                  answer = None, tmp_exists = False\<rparr>)"
proof -
  have "driver_main env k_arg outfile (Some buf)
      = search_loop env (outfile \<noteq> None) max_k k_start False [] None"
  proof (cases k_arg)
    case None
    then show ?thesis using assms(1,2,5) by (simp add: driver_main_def)
  next
    case (Some a)
    then have "driver_parse_k a = Inr k_start"
      using assms(5,6) by (cases "strtol a") (simp add: driver_parse_k_def)
    then show ?thesis using assms(1,2,6) Some by (simp add: driver_main_def)
  qed
  then show ?thesis
    using search_loop_first_round_ok [OF assms(3,4,7), of "outfile \<noteq> None" "[]"]
    by (simp split: option.split)
qed

theorem driver_stops_at_first_round_ok_witness:
  "parse_header triangle_col = Some 3 \<and> no_sigpipe sat_from_3_env 2 3 \<and>
   first_round_ok sat_from_3_env 2 3 = Some 3 \<and>
   driver_main sat_from_3_env None None (Some triangle_col) =
     \<lparr>status = EXIT_SUCCESS, fatal = None, tried = [2, 3], answer = Some 3, tmp_exists = False\<rparr>"
proof -
  have f: "first_round_ok sat_from_3_env 2 3 = Some 3" by code_simp
  have n: "no_sigpipe sat_from_3_env 2 3" by code_simp
  have e: "\<not> mkstemp_fails sat_from_3_env" "\<not> fopen_result_fails sat_from_3_env"
    "\<not> fopen_out_fails sat_from_3_env"
    by (simp_all add: sat_from_3_env_def)
  have u: "[2..3::int] = [2, 3]" by code_simp
  have k: "(2::int) = (case None :: string option of None \<Rightarrow> 2 | Some a \<Rightarrow> fst (strtol a))"
    "(0::int) < 2"
    by simp_all
  have "driver_main sat_from_3_env None None (Some triangle_col) =
     (case first_round_ok sat_from_3_env 2 3 of
        Some k \<Rightarrow> \<lparr>status = EXIT_SUCCESS, fatal = None, tried = [2..k],
                   answer = Some k, tmp_exists = False\<rparr>
      | None \<Rightarrow> \<lparr>status = EXIT_FAILURE, fatal = None, tried = [2..3],
                  answer = None, tmp_exists = False\<rparr>)"
    by (rule driver_stops_at_first_round_ok [OF triangle_header e k n])
  then have d: "driver_main sat_from_3_env None None (Some triangle_col) =
     \<lparr>status = EXIT_SUCCESS, fatal = None, tried = [2, 3], answer = Some 3, tmp_exists = False\<rparr>"
    by (simp add: f u)
  show ?thesis
    by (rule conjI [OF triangle_header conjI [OF n conjI [OF f d]]])
qed

text \<open>
  C4, as stated, fails: when \<open>pipe\<close> fails in the round for \<open>k = 2\<close>, the run is not
  aborted; the driver goes on to \<open>k = 3\<close> and reports success there.
\<close>

theorem pipe_failure_not_fatal:
  "pipe_fails (rounds no_pipe_at_2_env 2) \<and>
   driver_main no_pipe_at_2_env None None (Some edgeless3_col) =
     \<lparr>status = EXIT_SUCCESS, fatal = None, tried = [2, 3], answer = Some 3, tmp_exists = False\<rparr>"
  by code_simp

text \<open>
  C4, amended. A round in which \<open>pipe\<close> or the first \<open>fork\<close> fails returns \<open>-1\<close>.
  The driver is killed in a round exactly when both succeed and the \<open>write\<close> of the
  graph raises SIGPIPE. A round in which it is not killed returns \<open>-1\<close> when the second
  \<open>fork\<close> fails or the result file cannot be opened, is empty or does not begin with
  SAT. A round returns 0 exactly when \<open>pipe\<close> and both \<open>fork\<close>s succeed, no SIGPIPE
  is raised and the result file begins with SAT. In the loop, a round for \<open>k \<le> n\<close>
  that returns a value other than 0 makes the search go on with \<open>k + 1\<close>, whatever the
  cause; a round for \<open>k \<le> n\<close> in which the driver is killed ends the run there, with
  the temporary file left in place.
\<close>

theorem failed_round_advances:
  "(pipe_fails r \<or> fork1_fails r \<longrightarrow> run_color_minisat r = Return (- 1)) \<and>
   (run_color_minisat r = KilledBySIGPIPE \<longleftrightarrow>
      \<not> pipe_fails r \<and> \<not> fork1_fails r \<and> sigpipe r) \<and>
   (run_color_minisat r \<noteq> KilledBySIGPIPE \<and>
      (fork2_fails r \<or> result_file r = None \<or> result_file r = Some [] \<or>
       (\<exists>c. result_file r = Some c \<and> take 3 c \<noteq> ''SAT'')) \<longrightarrow>
      run_color_minisat r = Return (- 1)) \<and>
   (run_color_minisat r = Return 0 \<longleftrightarrow>
      \<not> pipe_fails r \<and> \<not> fork1_fails r \<and> \<not> sigpipe r \<and> \<not> fork2_fails r \<and>
      (\<exists>c. result_file r = Some c \<and> take 3 c = ''SAT'')) \<and>
   (\<forall>v. run_color_minisat (rounds env k) = Return v \<and> v \<noteq> 0 \<and> k \<le> max_k \<longrightarrow>
      search_loop env out max_k k False ks ans
        = search_loop env out max_k (k + 1) False (ks @ [k]) ans) \<and>
   (run_color_minisat (rounds env k) = KilledBySIGPIPE \<and> k \<le> max_k \<longrightarrow>
      search_loop env out max_k k False ks ans
        = \<lparr>status = KILLED_BY_SIGPIPE, fatal = None, tried = ks @ [k], answer = None,
           tmp_exists = True\<rparr>)"
proof -
  have line1: "(case fgets 32 c of None \<Rightarrow> Return (- 1)
        | Some (line, rest) \<Rightarrow> if take 3 line = ''SAT'' then Return 0 else Return (- 1))
      = (if take 3 c = ''SAT'' then Return 0 else Return (- 1))" for c
  proof (cases "fgets 32 c")
    case None
    then have "c = []" by (simp add: fgets_def split: if_splits)
    then show ?thesis using None by simp
  next
    case (Some a)
    obtain line rest where a: "a = (line, rest)" by (cases a)
    show ?thesis
      using first_line_SAT [of c line rest] Some by (simp add: a)
  qed
  have run: "run_color_minisat r =
     (if pipe_fails r then Return (- 1)
      else if fork1_fails r then Return (- 1)
      else if sigpipe r then KilledBySIGPIPE
      else if fork2_fails r then Return (- 1)
      else (case result_file r of None \<Rightarrow> Return (- 1)
            | Some c \<Rightarrow> if take 3 c = ''SAT'' then Return 0 else Return (- 1)))"
    by (simp add: run_color_minisat_def line1 split: option.split)
  have A: "pipe_fails r \<or> fork1_fails r \<longrightarrow> run_color_minisat r = Return (- 1)"
    by (simp add: run)
  have B: "run_color_minisat r = KilledBySIGPIPE \<longleftrightarrow>
      \<not> pipe_fails r \<and> \<not> fork1_fails r \<and> sigpipe r"
    by (simp add: run split: option.split)
  have C: "run_color_minisat r \<noteq> KilledBySIGPIPE \<and>
      (fork2_fails r \<or> result_file r = None \<or> result_file r = Some [] \<or>
       (\<exists>c. result_file r = Some c \<and> take 3 c \<noteq> ''SAT'')) \<longrightarrow>
      run_color_minisat r = Return (- 1)"
    by (auto simp: run split: option.split)
  have D: "run_color_minisat r = Return 0 \<longleftrightarrow>
      \<not> pipe_fails r \<and> \<not> fork1_fails r \<and> \<not> sigpipe r \<and> \<not> fork2_fails r \<and>
      (\<exists>c. result_file r = Some c \<and> take 3 c = ''SAT'')"
    by (auto simp: run split: option.split)
  have E: "\<forall>v. run_color_minisat (rounds env k) = Return v \<and> v \<noteq> 0 \<and> k \<le> max_k \<longrightarrow>
      search_loop env out max_k k False ks ans
        = search_loop env out max_k (k + 1) False (ks @ [k]) ans"
    using search_loop_advances [of env k _ max_k out ks ans] by blast
  have F: "run_color_minisat (rounds env k) = KilledBySIGPIPE \<and> k \<le> max_k \<longrightarrow>
      search_loop env out max_k k False ks ans
        = \<lparr>status = KILLED_BY_SIGPIPE, fatal = None, tried = ks @ [k], answer = None,
           tmp_exists = True\<rparr>"
    by (subst search_loop.simps) simp
  show ?thesis
    by (rule conjI [OF A conjI [OF B conjI [OF C conjI [OF D conjI [OF E F]]]]])
qed

theorem failed_round_advances_witness:
  "pipe_fails no_pipe_round \<and> run_color_minisat no_pipe_round = Return (- 1) \<and>
   result_file unsat_round = Some (''UNSAT'' @ nl) \<and>
   run_color_minisat unsat_round = Return (- 1) \<and>
   run_color_minisat sat_round = Return 0 \<and>
   search_loop no_pipe_at_2_env False 3 2 False [] None
     = search_loop no_pipe_at_2_env False 3 3 False [2] None"
proof -
  note t1 = failed_round_advances [where r = no_pipe_round and env = no_pipe_at_2_env
      and k = 2 and max_k = 3 and out = False and ks = "[]" and ans = None]
  note t2 = failed_round_advances [where r = unsat_round and env = no_pipe_at_2_env
      and k = 2 and max_k = 3 and out = False and ks = "[]" and ans = None]
  note t3 = failed_round_advances [where r = sat_round and env = no_pipe_at_2_env
      and k = 2 and max_k = 3 and out = False and ks = "[]" and ans = None]
  have p: "pipe_fails no_pipe_round"
    by (simp add: no_pipe_round_def)
  have a: "run_color_minisat no_pipe_round = Return (- 1)"
    using t1 [THEN conjunct1] p by simp
  have u: "result_file unsat_round = Some (''UNSAT'' @ nl)"
    by (simp add: unsat_round_def)
  have "\<not> sigpipe unsat_round"
    by (simp add: unsat_round_def)
  then have nk: "run_color_minisat unsat_round \<noteq> KilledBySIGPIPE"
    using t2 [THEN conjunct2, THEN conjunct1] by simp
  have "\<exists>c. result_file unsat_round = Some c \<and> take 3 c \<noteq> ''SAT''"
    by (simp add: u)
  then have b: "run_color_minisat unsat_round = Return (- 1)"
    using t2 [THEN conjunct2, THEN conjunct2, THEN conjunct1] nk by blast
  have "\<not> pipe_fails sat_round \<and> \<not> fork1_fails sat_round \<and> \<not> sigpipe sat_round \<and>
      \<not> fork2_fails sat_round \<and> (\<exists>c. result_file sat_round = Some c \<and> take 3 c = ''SAT'')"
    by (simp add: sat_round_def)
  then have c: "run_color_minisat sat_round = Return 0"
    using t3 [THEN conjunct2, THEN conjunct2, THEN conjunct2, THEN conjunct1] by blast
  have r2: "rounds no_pipe_at_2_env 2 = no_pipe_round"
    by (simp add: no_pipe_at_2_env_def)
  have "run_color_minisat (rounds no_pipe_at_2_env 2) = Return (- 1) \<and> (- 1 :: int) \<noteq> 0 \<and>
      (2::int) \<le> 3"
    by (simp add: r2 a)
  then have d: "search_loop no_pipe_at_2_env False 3 2 False [] None
     = search_loop no_pipe_at_2_env False 3 (2 + 1) False ([] @ [2]) None"
    by (rule t1 [THEN conjunct2, THEN conjunct2, THEN conjunct2, THEN conjunct2, THEN conjunct1,
          rule_format])
  have e: "search_loop no_pipe_at_2_env False 3 2 False [] None
     = search_loop no_pipe_at_2_env False 3 3 False [2] None"
    using d by simp
  show ?thesis
    by (rule conjI [OF p conjI [OF a conjI [OF u conjI [OF b conjI [OF c e]]]]])
qed

text \<open>
  C8. A run with \<open>-o\<close> naming a file that cannot be opened, on a graph whose first
  round succeeds: the driver ends through \<open>ERROR_EXIT\<close> inside the loop, and the
  temporary result file that \<open>mkstemp\<close> created is not removed.
\<close>

theorem tmp_file_left_behind:
  "driver_main no_outfile_env None (Some ''/nonexistent/out.txt'') (Some edgeless3_col) =
     \<lparr>status = EXIT_FAILURE, fatal = Some OutputOpenFailed, tried = [2], answer = None,
      tmp_exists = True\<rparr>"
  by code_simp

end
